theory Spec2Isabelle
  imports Complex_Main "HOL-Library.Word"
begin

section \<open>Errors\<close>

text \<open>
  Every \<^verbatim>\<open>throw\<close> of the modelled code is a value of this type.
  \<^item> \<open>ApiError m\<close>: \<^verbatim>\<open>throw res.err\<close> after a failed \<^verbatim>\<open>requestApi\<close>, or an error
    thrown by code outside \<^verbatim>\<open>scraper.ts\<close>/\<^verbatim>\<open>tweets.ts\<close> (the login negotiation,
    a rejected predicate promise);
  \<^item> \<open>InitFailed\<close>: \<^verbatim>\<open>new Error('Failed to initialize media upload')\<close>;
  \<^item> \<open>AppendFailed k n\<close>: \<^verbatim>\<open>new Error(`Failed to append media chunk ${i + 1}/${chunks}`)\<close>
    with \<open>k = i + 1\<close> and \<open>n = chunks\<close>;
  \<^item> \<open>FinalizeFailed\<close>: \<^verbatim>\<open>new Error('Failed to finalize media upload')\<close>;
  \<^item> \<open>StatusCheckFailed\<close>: \<^verbatim>\<open>new Error('Failed to check media processing status')\<close>;
  \<^item> \<open>ProcessingFailed\<close>: \<^verbatim>\<open>new Error('Video processing failed')\<close>;
  \<^item> \<open>ProcessingTimedOut\<close>: \<^verbatim>\<open>new Error('Video processing timed out')\<close>.
\<close>

datatype error =
    ApiError string
  | InitFailed
  | AppendFailed nat nat
  | FinalizeFailed
  | StatusCheckFailed
  | ProcessingFailed
  | ProcessingTimedOut

section \<open>Session: \<^verbatim>\<open>Scraper\<close> and its auth objects\<close>

text \<open>
  A cookie record, with the fields of the cookie serialization boundary.
\<close>

record Cookie =
  key :: string
  cvalue :: string
  cdomain :: string
  cpath :: string
  secure :: bool
  httpOnly :: bool
  sameSite :: string

text \<open>
  Modelled from the spec: the cookie jar (\<^verbatim>\<open>CookieJar\<close> of the tough-cookie package, reached
  through \<^verbatim>\<open>auth.cookieJar()\<close> of \<^verbatim>\<open>auth.ts\<close>) is not part of the sources at hand. The
  spec describes the Cookie Store as a mapping from (domain, path, name) to the cookie's
  value and attributes, exported as an ordered sequence of cookie records and imported
  the same way. The jar is therefore the sequence of stored records in insertion order,
  holding at most one record per (domain, path, name). Storing a record replaces the
  record of the same (domain, path, name) where it stands, or appends it. The spec gives
  the store no scoping by URL, so the URL argument the callers pass is not interpreted.
\<close>

type_synonym CookieJar = "Cookie list"

text \<open>
  Modelled from the spec: the key of the Cookie Store mapping, (domain, path, name).
\<close>

definition cookie_id :: "Cookie \<Rightarrow> string \<times> string \<times> string" where
  "cookie_id c = (cdomain c, cpath c, key c)"

text \<open>
  Modelled from the spec: \<^verbatim>\<open>CookieJar.setCookie(cookie, url)\<close>, the import of one record
  into the mapping.
\<close>

fun jar_setCookie :: "CookieJar \<Rightarrow> Cookie \<Rightarrow> string \<Rightarrow> CookieJar" where
  "jar_setCookie [] c url = [c]"
| "jar_setCookie (d # ds) c url =
     (if cookie_id d = cookie_id c then c # ds else d # jar_setCookie ds c url)"

text \<open>
  Modelled from the spec: \<^verbatim>\<open>CookieJar.getCookies(url)\<close>, the export of the store as an
  ordered sequence of cookie records.
\<close>

definition jar_getCookies :: "CookieJar \<Rightarrow> string \<Rightarrow> Cookie list" where
  "jar_getCookies j url = j"

text \<open>
  Modelled from the spec: the store is a mapping, so no two of its records have the same
  (domain, path, name).
\<close>

definition jar_wf :: "CookieJar \<Rightarrow> bool" where
  "jar_wf j = distinct (map cookie_id j)"

text \<open>
  The two classes of \<^verbatim>\<open>auth.ts\<close> and \<^verbatim>\<open>auth-user.ts\<close> that implement \<^verbatim>\<open>TwitterAuth\<close>.
  An auth object holds the bearer token it was constructed with, its own cookie jar and,
  once acquired, a guest token.
\<close>

datatype AuthKind = TwitterGuestAuth | TwitterUserAuth

record TwitterAuth =
  kind :: AuthKind
  bearerToken :: string
  jar :: CookieJar
  guestToken :: "string option"

text \<open>
  Modelled from the spec: the constructors of \<^verbatim>\<open>TwitterGuestAuth\<close> and \<^verbatim>\<open>TwitterUserAuth\<close>
  (\<^verbatim>\<open>auth.ts\<close>, \<^verbatim>\<open>auth-user.ts\<close>) are missing. A new auth object owns exactly one, empty,
  Cookie Store and holds no guest token yet. The readonly \<^verbatim>\<open>ScraperOptions\<close>
  (\<^verbatim>\<open>fetch\<close>, \<^verbatim>\<open>transform\<close>) that \<^verbatim>\<open>getAuthOptions\<close> forwards configure the transport only
  and are left out.
\<close>

definition new_TwitterGuestAuth :: "string \<Rightarrow> TwitterAuth" where
  "new_TwitterGuestAuth tok =
     \<lparr>kind = TwitterGuestAuth, bearerToken = tok, jar = [], guestToken = None\<rparr>"

text \<open>
  Modelled from the spec: the constructor of \<^verbatim>\<open>TwitterUserAuth\<close> (\<^verbatim>\<open>auth-user.ts\<close>), as
  for the guest auth above.
\<close>

definition new_TwitterUserAuth :: "string \<Rightarrow> TwitterAuth" where
  "new_TwitterUserAuth tok =
     \<lparr>kind = TwitterUserAuth, bearerToken = tok, jar = [], guestToken = None\<rparr>"

text \<open>
  Modelled from the spec: \<^verbatim>\<open>isLoggedIn\<close> of the two auth classes is missing. The spec's
  \<^verbatim>\<open>isAuthenticated()\<close> is a pure query, true only in the Authenticated variant.
\<close>

definition auth_isLoggedIn :: "TwitterAuth \<Rightarrow> bool" where
  "auth_isLoggedIn a = (kind a = TwitterUserAuth)"

text \<open>
  The \<^verbatim>\<open>Scraper\<close> class: its three private fields. After \<^verbatim>\<open>login\<close> and \<^verbatim>\<open>setCookies\<close> the
  fields \<open>auth\<close> and \<open>authTrends\<close> refer to one object; no operation modelled here
  mutates an auth object through one of the two references, so the fields hold values.
\<close>

record Scraper =
  auth :: TwitterAuth
  authTrends :: TwitterAuth
  token :: string

definition twUrl :: string where
  "twUrl = ''https://twitter.com''"

text \<open>\<^verbatim>\<open>useGuestAuth\<close>: both fields get a guest auth object of their own.\<close>

definition useGuestAuth :: "Scraper \<Rightarrow> Scraper" where
  "useGuestAuth s =
     s\<lparr>auth := new_TwitterGuestAuth (token s),
       authTrends := new_TwitterGuestAuth (token s)\<rparr>"

text \<open>
  The constructor. The constant \<^verbatim>\<open>bearerToken\<close> of \<^verbatim>\<open>api.ts\<close> is a parameter. The fields
  \<open>auth\<close> and \<open>authTrends\<close> are unassigned before \<^verbatim>\<open>useGuestAuth\<close> runs; it overwrites
  both.
\<close>

definition new_Scraper :: "string \<Rightarrow> Scraper" where
  "new_Scraper bearer =
     useGuestAuth \<lparr>auth = new_TwitterGuestAuth bearer,
                   authTrends = new_TwitterGuestAuth bearer, token = bearer\<rparr>"

text \<open>\<^verbatim>\<open>isLoggedIn\<close>: both auth objects must report a logged-in user.\<close>

definition isLoggedIn :: "Scraper \<Rightarrow> bool" where
  "isLoggedIn s = (auth_isLoggedIn (auth s) \<and> auth_isLoggedIn (authTrends s))"

text \<open>
  The arguments of \<^verbatim>\<open>login\<close>: username, password, optional email, optional two-factor
  secret.
\<close>

record Credentials =
  username :: string
  password :: string
  email :: "string option"
  twoFactorSecret :: "string option"

text \<open>
  \<^verbatim>\<open>login\<close>. The negotiation \<^verbatim>\<open>TwitterUserAuth.login\<close> (\<^verbatim>\<open>auth-user.ts\<close>) is a parameter:
  it receives the new user-auth object and the credentials and either throws or returns
  the object as the negotiation left it. Only after it returns are the two fields
  assigned.
\<close>

type_synonym Negotiation = "TwitterAuth \<Rightarrow> Credentials \<Rightarrow> error + TwitterAuth"

definition login :: "Negotiation \<Rightarrow> Scraper \<Rightarrow> Credentials \<Rightarrow> (error + unit) \<times> Scraper" where
  "login userAuth_login s c =
     (let userAuth = new_TwitterUserAuth (token s) in
      case userAuth_login userAuth c of
        Inl e \<Rightarrow> (Inl e, s)
      | Inr userAuth' \<Rightarrow> (Inr (), s\<lparr>auth := userAuth', authTrends := userAuth'\<rparr>))"

text \<open>\<^verbatim>\<open>getCookies\<close>: the cookies of \<open>authTrends\<close>'s jar for \<^verbatim>\<open>twUrl\<close> (no \<^verbatim>\<open>document\<close>).\<close>

definition getCookies :: "Scraper \<Rightarrow> Cookie list" where
  "getCookies s = jar_getCookies (jar (authTrends s)) twUrl"

text \<open>
  \<^verbatim>\<open>setCookies\<close>: a new user-auth object receives the cookies one by one, then replaces
  both fields. The argument is a sequence of cookie records; cookie-lines, which the
  jar would parse into records first, are not modelled.
\<close>

fun setCookies_loop :: "TwitterAuth \<Rightarrow> Cookie list \<Rightarrow> TwitterAuth" where
  "setCookies_loop userAuth [] = userAuth"
| "setCookies_loop userAuth (cookie # cookies) =
     setCookies_loop (userAuth\<lparr>jar := jar_setCookie (jar userAuth) cookie twUrl\<rparr>) cookies"

definition setCookies :: "Scraper \<Rightarrow> Cookie list \<Rightarrow> Scraper" where
  "setCookies s cookies =
     (let userAuth = setCookies_loop (new_TwitterUserAuth (token s)) cookies in
      s\<lparr>auth := userAuth, authTrends := userAuth\<rparr>)"

text \<open>
  Concrete values for the examples below: two session cookies; a negotiation that
  installs them when the password is right and otherwise throws on a subtask it does
  not know; credentials; a Scraper that has imported the two cookies.
\<close>

definition auth_token_cookie :: Cookie where
  "auth_token_cookie =
     \<lparr>key = ''auth_token'', cvalue = ''a1b2'', cdomain = ''twitter.com'', cpath = ''/'',
      secure = True, httpOnly = True, sameSite = ''none''\<rparr>"

definition ct0_cookie :: Cookie where
  "ct0_cookie =
     \<lparr>key = ''ct0'', cvalue = ''c3d4'', cdomain = ''twitter.com'', cpath = ''/'',
      secure = True, httpOnly = False, sameSite = ''lax''\<rparr>"

definition password_negotiation :: Negotiation where
  "password_negotiation userAuth c =
     (if password c = ''hunter2'' then Inr (userAuth\<lparr>jar := [auth_token_cookie, ct0_cookie]\<rparr>)
      else Inl (ApiError ''Unknown subtask DenyLoginSubtask''))"

definition alice :: "string \<Rightarrow> Credentials" where
  "alice pw = \<lparr>username = ''alice'', password = pw, email = None, twoFactorSecret = None\<rparr>"

definition imported_session :: Scraper where
  "imported_session = setCookies (new_Scraper ''AAAA'') [auth_token_cookie, ct0_cookie]"

section \<open>Tweets and queries (\<^verbatim>\<open>tweets.ts\<close>)\<close>

text \<open>
  A JavaScript value as far as \<^verbatim>\<open>===\<close> sees it: primitives compare by value, objects
  and arrays (\<open>JRef\<close>, a reference) by identity. Numbers are integers here, so the
  one primitive that is not equal to itself, \<^verbatim>\<open>NaN\<close>, does not occur.
\<close>

datatype jsvalue = JUndefined | JBool bool | JNumber int | JString string | JRef nat

text \<open>
  A \<^verbatim>\<open>Tweet\<close> (and a \<^verbatim>\<open>Partial<Tweet>\<close>) is an object: its own keys in order, each with a
  value. \<open>js_get t k\<close> is \<^verbatim>\<open>t[k]\<close>, \<^verbatim>\<open>undefined\<close> for a key the object does not have.
\<close>

type_synonym Tweet = "(string \<times> jsvalue) list"

definition js_get :: "Tweet \<Rightarrow> string \<Rightarrow> jsvalue" where
  "js_get t k = (case map_of t k of None \<Rightarrow> JUndefined | Some v \<Rightarrow> v)"

text \<open>\<^verbatim>\<open>checkTweetMatches\<close>: every key of \<open>options\<close> has the same value in the tweet.\<close>

definition checkTweetMatches :: "Tweet \<Rightarrow> Tweet \<Rightarrow> bool" where
  "checkTweetMatches tweet options =
     list_all (\<lambda>k. js_get tweet k = js_get options k) (map fst options)"

text \<open>
  What a predicate query returns: a boolean, or a promise that resolves to a boolean
  or rejects. \<open>js_truthy\<close> is the test \<^verbatim>\<open>if (matches)\<close> on the value itself, where every
  promise is an object and so truthy; \<open>await\<close> is \<^verbatim>\<open>await\<close> on it.
\<close>

datatype PredResult = Plain bool | Promise "error + bool"

fun js_truthy :: "PredResult \<Rightarrow> bool" where
  "js_truthy (Plain b) = b"
| "js_truthy (Promise p) = True"

fun await :: "PredResult \<Rightarrow> error + bool" where
  "await (Plain b) = Inr b"
| "await (Promise p) = p"

datatype TweetQuery = ByFields Tweet | ByPredicate "Tweet \<Rightarrow> PredResult"

text \<open>
  \<^verbatim>\<open>getTweetWhere\<close>, over the tweets the iterable delivers. A predicate's result is
  awaited, then tested. \<open>Inr None\<close> is \<^verbatim>\<open>null\<close>.
\<close>

fun getTweetWhere :: "Tweet list \<Rightarrow> TweetQuery \<Rightarrow> error + Tweet option" where
  "getTweetWhere [] query = Inr None"
| "getTweetWhere (tweet # rest) query =
     (case (case query of
              ByPredicate f \<Rightarrow> await (f tweet)
            | ByFields options \<Rightarrow> Inr (checkTweetMatches tweet options)) of
        Inl e \<Rightarrow> Inl e
      | Inr matches \<Rightarrow> if matches then Inr (Some tweet) else getTweetWhere rest query)"

text \<open>
  \<^verbatim>\<open>getTweetsWhere\<close>. A predicate's result is tested as it is returned, without
  \<^verbatim>\<open>await\<close>.
\<close>

fun getTweetsWhere_loop :: "Tweet list \<Rightarrow> TweetQuery \<Rightarrow> Tweet list \<Rightarrow> Tweet list" where
  "getTweetsWhere_loop [] query filtered = filtered"
| "getTweetsWhere_loop (tweet # rest) query filtered =
     (let matches = (case query of
                       ByPredicate f \<Rightarrow> js_truthy (f tweet)
                     | ByFields options \<Rightarrow> checkTweetMatches tweet options)
      in if \<not> matches then getTweetsWhere_loop rest query filtered
         else getTweetsWhere_loop rest query (filtered @ [tweet]))"

definition getTweetsWhere :: "Tweet list \<Rightarrow> TweetQuery \<Rightarrow> Tweet list" where
  "getTweetsWhere tweets query = getTweetsWhere_loop tweets query []"

text \<open>
  The result of \<^verbatim>\<open>requestApi\<close>: \<open>Inl err\<close> is \<^verbatim>\<open>{success: false, err}\<close>, \<open>Inr v\<close> is
  \<^verbatim>\<open>{success: true, value: v}\<close>.

  \<^verbatim>\<open>getTweet\<close> of \<^verbatim>\<open>tweets.ts\<close>. The request for the conversation anchored at the id \<open>tid\<close> and
  \<^verbatim>\<open>parseThreadedConversation\<close> (\<^verbatim>\<open>timeline-v2.ts\<close>) are parameters. A value that is
  \<^verbatim>\<open>null\<close> or \<^verbatim>\<open>undefined\<close> is \<open>None\<close>.
\<close>

definition getTweet ::
  "('conv \<Rightarrow> Tweet list) \<Rightarrow> (string \<Rightarrow> error + 'conv option) \<Rightarrow> string
     \<Rightarrow> error + Tweet option" where
  "getTweet parseThreadedConversation requestApi tid =
     (case requestApi tid of
        Inl err \<Rightarrow> Inl err
      | Inr None \<Rightarrow> Inr None
      | Inr (Some v) \<Rightarrow>
          Inr (find (\<lambda>tweet. js_get tweet ''id'' = JString tid) (parseThreadedConversation v)))"

text \<open>
  \<^verbatim>\<open>getTweetAnonymous\<close>: \<^verbatim>\<open>res.value.data\<close> is the option; the parser
  \<^verbatim>\<open>parseTimelineEntryItemContentRaw\<close> (\<^verbatim>\<open>timeline-v2.ts\<close>) is a parameter.
\<close>

definition getTweetAnonymous ::
  "('raw \<Rightarrow> string \<Rightarrow> Tweet option) \<Rightarrow> (string \<Rightarrow> error + 'raw option) \<Rightarrow> string
     \<Rightarrow> error + Tweet option" where
  "getTweetAnonymous parseTimelineEntryItemContentRaw requestApi tid =
     (case requestApi tid of
        Inl err \<Rightarrow> Inl err
      | Inr None \<Rightarrow> Inr None
      | Inr (Some d) \<Rightarrow> Inr (parseTimelineEntryItemContentRaw d tid))"

text \<open>\<^verbatim>\<open>Scraper.getTweet\<close>: the conversation lookup for a user auth, else the anonymous one.\<close>

definition Scraper_getTweet ::
  "('conv \<Rightarrow> Tweet list) \<Rightarrow> (string \<Rightarrow> error + 'conv option)
     \<Rightarrow> ('raw \<Rightarrow> string \<Rightarrow> Tweet option) \<Rightarrow> (string \<Rightarrow> error + 'raw option)
     \<Rightarrow> Scraper \<Rightarrow> string \<Rightarrow> error + Tweet option" where
  "Scraper_getTweet parseConv requestConv parseRaw requestRaw s tid =
     (if kind (auth s) = TwitterUserAuth then getTweet parseConv requestConv tid
      else getTweetAnonymous parseRaw requestRaw tid)"

text \<open>
  Concrete values for the examples below: an original tweet and a retweet; an async
  predicate that resolves to whether the tweet is a retweet; a conversation, already
  flattened, of the two tweets.
\<close>

definition original_tweet :: Tweet where
  "original_tweet = [(''id'', JString ''1''), (''isRetweet'', JBool False)]"

definition retweeted_tweet :: Tweet where
  "retweeted_tweet = [(''id'', JString ''2''), (''isRetweet'', JBool True)]"

definition is_retweet_async :: "Tweet \<Rightarrow> PredResult" where
  "is_retweet_async t = Promise (Inr (js_get t ''isRetweet'' = JBool True))"

definition conversation_service :: "string \<Rightarrow> error + Tweet list option" where
  "conversation_service tid = Inr (Some [original_tweet, retweeted_tweet])"

section \<open>Pagination (\<^verbatim>\<open>getUserTweets\<close>, \<^verbatim>\<open>getUserTweetsIterator\<close>)\<close>

text \<open>One page as \<^verbatim>\<open>getUserTweets\<close> returns it.\<close>

record UserTweets =
  tweets :: "Tweet list"
  "next" :: "string option"

text \<open>\<^verbatim>\<open>if (cursor)\<close>: a cursor is falsy when it is \<^verbatim>\<open>undefined\<close> or the empty string.\<close>

fun truthy :: "string option \<Rightarrow> bool" where
  "truthy None = False"
| "truthy (Some c) = (c \<noteq> [])"

text \<open>
  The remote timeline for one user, seen through \<^verbatim>\<open>requestApi\<close> and
  \<^verbatim>\<open>parseTimelineTweetsV2\<close> (both outside the sources at hand): given how many page
  requests this run has sent before, and the \<^verbatim>\<open>count\<close> and \<^verbatim>\<open>cursor\<close> variables of the
  request, it fails with \<^verbatim>\<open>res.err\<close> or gives the parsed page. The first argument lets
  the service answer the same request differently over time.
\<close>

type_synonym TimelineApi = "nat \<Rightarrow> nat \<Rightarrow> string option \<Rightarrow> error + UserTweets"

text \<open>
  \<^verbatim>\<open>getUserTweets\<close>: the count is capped at 200, a falsy cursor is not sent, a failed
  request throws its error.
\<close>

definition getUserTweets ::
  "TimelineApi \<Rightarrow> nat \<Rightarrow> nat \<Rightarrow> string option \<Rightarrow> error + UserTweets" where
  "getUserTweets requestApi n maxTweets cursor =
     (let maxTweets' = (if maxTweets > 200 then 200 else maxTweets);
          variables_cursor = (if truthy cursor then cursor else None)
      in requestApi n maxTweets' variables_cursor)"

text \<open>
  What a consumer that drains the generator observes: the tweets yielded, in order; the
  calls of \<^verbatim>\<open>getUserTweets\<close> made, each with its count and cursor arguments; the error
  thrown, if the run ended in one.
\<close>

record Run =
  yielded :: "Tweet list"
  requests :: "(nat \<times> string option) list"
  thrown :: "error option"

text \<open>
  The inner \<^verbatim>\<open>for\<close> loop: yield, count, leave the loop once \<^verbatim>\<open>maxTweets\<close> is reached.
  It returns the counter and the tweets yielded so far.
\<close>

fun yield_tweets :: "nat \<Rightarrow> Tweet list \<Rightarrow> nat \<Rightarrow> Tweet list \<Rightarrow> nat \<times> Tweet list" where
  "yield_tweets maxTweets [] retrievedTweets out = (retrievedTweets, out)"
| "yield_tweets maxTweets (tweet # rest) retrievedTweets out =
     (if retrievedTweets + 1 \<ge> maxTweets then (retrievedTweets + 1, out @ [tweet])
      else yield_tweets maxTweets rest (retrievedTweets + 1) (out @ [tweet]))"

text \<open>
  The \<^verbatim>\<open>while\<close> loop. It need not end (a service that keeps answering empty pages with
  a cursor keeps it running), so the loop is a partial function: \<open>None\<close> is a run that
  never ends.
\<close>

partial_function (option) iterate ::
  "TimelineApi \<Rightarrow> nat \<Rightarrow> string option \<Rightarrow> nat \<Rightarrow> Run \<Rightarrow> Run option" where
  "iterate requestApi maxTweets cursor retrievedTweets run =
     (if retrievedTweets < maxTweets then
        (let request = (maxTweets - retrievedTweets, cursor);
             run1 = run\<lparr>requests := requests run @ [request]\<rparr> in
         case getUserTweets requestApi (length (requests run))
                (maxTweets - retrievedTweets) cursor of
           Inl err \<Rightarrow> Some (run1\<lparr>thrown := Some err\<rparr>)
         | Inr response \<Rightarrow>
             (case yield_tweets maxTweets (tweets response) retrievedTweets (yielded run1) of
                (retrievedTweets', out) \<Rightarrow>
                  if \<not> truthy (next response) then Some (run1\<lparr>yielded := out\<rparr>)
                  else iterate requestApi maxTweets (next response) retrievedTweets'
                         (run1\<lparr>yielded := out\<rparr>)))
      else Some run)"

declare iterate.simps [code]

definition getUserTweetsIterator :: "TimelineApi \<Rightarrow> nat \<Rightarrow> Run option" where
  "getUserTweetsIterator requestApi maxTweets =
     iterate requestApi maxTweets None 0 \<lparr>yielded = [], requests = [], thrown = None\<rparr>"

text \<open>
  Vocabulary for the statements. \<open>exhausted_at\<close>: the service's page number \<open>N\<close>
  (counting from 0) carries no cursor, whatever is requested. \<open>ends_within\<close>: starting
  with the request number \<open>n\<close> for the cursor \<open>cursor\<close> and following the cursors the
  service returns, a page without a cursor (or a failed request) is reached within \<open>k\<close>
  pages, whatever counts are requested. \<open>pages_nonempty\<close>: every page the service
  gives has at least one tweet. \<open>with_id\<close>: the number of tweets with a given id in a
  list.
\<close>

definition exhausted_at :: "TimelineApi \<Rightarrow> nat \<Rightarrow> bool" where
  "exhausted_at requestApi N =
     (\<forall>count cursor. case requestApi N count cursor of
                       Inl err \<Rightarrow> True
                     | Inr response \<Rightarrow> \<not> truthy (next response))"

fun ends_within :: "TimelineApi \<Rightarrow> nat \<Rightarrow> nat \<Rightarrow> string option \<Rightarrow> bool" where
  "ends_within requestApi 0 n cursor = False"
| "ends_within requestApi (Suc k) n cursor =
     (\<forall>count. case getUserTweets requestApi n count cursor of
                 Inl err \<Rightarrow> True
               | Inr response \<Rightarrow>
                   \<not> truthy (next response) \<or> ends_within requestApi k (Suc n) (next response))"

definition pages_nonempty :: "TimelineApi \<Rightarrow> bool" where
  "pages_nonempty requestApi =
     (\<forall>n count cursor. case requestApi n count cursor of
                         Inl err \<Rightarrow> True
                       | Inr response \<Rightarrow> tweets response \<noteq> [])"

definition with_id :: "string \<Rightarrow> Tweet list \<Rightarrow> nat" where
  "with_id i ts = length (filter (\<lambda>t. js_get t ''id'' = JString i) ts)"

text \<open>
  More vocabulary, for a run that has returned: the service's answers to the requests of
  the run, in order; the tweets of an answer (none for a failed request); the tweets of
  the first \<open>k\<close> pages of the run, concatenated.
\<close>

fun responses_from ::
  "TimelineApi \<Rightarrow> nat \<Rightarrow> (nat \<times> string option) list \<Rightarrow> (error + UserTweets) list" where
  "responses_from requestApi n [] = []"
| "responses_from requestApi n ((count, cursor) # rest) =
     getUserTweets requestApi n count cursor # responses_from requestApi (Suc n) rest"

definition responses :: "TimelineApi \<Rightarrow> Run \<Rightarrow> (error + UserTweets) list" where
  "responses requestApi run = responses_from requestApi 0 (requests run)"

fun page_tweets :: "error + UserTweets \<Rightarrow> Tweet list" where
  "page_tweets (Inl err) = []"
| "page_tweets (Inr response) = tweets response"

definition fetched :: "TimelineApi \<Rightarrow> Run \<Rightarrow> nat \<Rightarrow> Tweet list" where
  "fetched requestApi run k = concat (map page_tweets (take k (responses requestApi run)))"

text \<open>
  The requests a run makes from a loop state: each is made only while fewer than
  \<open>m\<close> tweets are retrieved, asks for the remaining count with the current cursor, and
  is followed by another only if it succeeds and its page carries a cursor.
\<close>

fun follows_loop ::
  "TimelineApi \<Rightarrow> nat \<Rightarrow> nat \<Rightarrow> string option \<Rightarrow> nat \<Rightarrow> (nat \<times> string option) list \<Rightarrow> bool" where
  "follows_loop api m n cur r [] = (\<not> r < m)"
| "follows_loop api m n cur r (req # rest) =
     (r < m \<and> req = (m - r, cur) \<and>
      (case getUserTweets api n (m - r) cur of
         Inl e \<Rightarrow> rest = []
       | Inr p \<Rightarrow> if truthy (next p)
                  then follows_loop api m (Suc n) (next p) (min m (r + length (tweets p))) rest
                  else rest = []))"

section \<open>Media upload (\<^verbatim>\<open>uploadMedia\<close>, \<^verbatim>\<open>checkMediaProcessingStatus\<close>)\<close>

text \<open>
  The media buffer is a list of bytes. The media type is one of the two strings
  \<^verbatim>\<open>'image/jpeg'\<close> and \<^verbatim>\<open>'video/mp4'\<close>.
\<close>

type_synonym byte = "8 word"

datatype MediaType = ImageJpeg | VideoMp4

text \<open>\<^verbatim>\<open>MediaUploadResponse\<close>, with its optional \<^verbatim>\<open>processing_info\<close>.\<close>

record ProcessingInfo =
  state :: string
  check_after_secs :: "nat option"

record MediaUploadResponse =
  media_id_string :: "string option"
  processing_info :: "ProcessingInfo option"

text \<open>
  The four commands sent to \<^verbatim>\<open>upload.twitter.com/1.1/media/upload.json\<close>, with their
  form fields: \<open>INIT total_bytes media_type media_category\<close>,
  \<open>APPEND media_id segment_index media\<close>, \<open>FINALIZE media_id\<close>, \<open>STATUS media_id\<close>.
  The \<open>media\<close> field holds the bytes of the chunk; its base64 text on the wire is
  not modelled.

  An event is a request sent or a \<^verbatim>\<open>setTimeout\<close> pause of so many milliseconds that the
  call waits out. The trace of a call is the list of its events in order: a request is
  appended when it is sent, and nothing follows it before its response has arrived.

  The remote service answers a request given everything the call did before, so it
  may answer the same request differently over time: \<open>Inl err\<close> is a failed request,
  \<open>Inr v\<close> a successful one with value \<open>v\<close>.
\<close>

datatype Request =
    INIT nat MediaType string
  | APPEND string nat "byte list"
  | FINALIZE string
  | STATUS string

datatype Event = Sent Request | Wait nat

type_synonym UploadApi = "Event list \<Rightarrow> Request \<Rightarrow> error + MediaUploadResponse"

text \<open>\<^verbatim>\<open>CHUNK_SIZE\<close>, \<^verbatim>\<open>Buffer.slice(start, end)\<close> and \<^verbatim>\<open>Math.ceil(totalBytes / CHUNK_SIZE)\<close>.\<close>

definition CHUNK_SIZE :: nat where
  "CHUNK_SIZE = 5 * 1024 * 1024"

definition slice :: "'a list \<Rightarrow> nat \<Rightarrow> nat \<Rightarrow> 'a list" where
  "slice xs start end' = take (end' - start) (drop start xs)"

definition chunk_count :: "nat \<Rightarrow> nat" where
  "chunk_count totalBytes = nat \<lceil>real totalBytes / real CHUNK_SIZE\<rceil>"

text \<open>
  The \<^verbatim>\<open>for\<close> loop of the APPEND phase, from index \<open>i\<close>. It returns the error thrown,
  if any, and the trace.
\<close>

function append_loop ::
  "UploadApi \<Rightarrow> byte list \<Rightarrow> string \<Rightarrow> nat \<Rightarrow> nat \<Rightarrow> Event list \<Rightarrow> error option \<times> Event list" where
  "append_loop requestApi mediaData mediaId chunks i trace =
     (if i < chunks then
        (let start = i * CHUNK_SIZE;
             end' = min (start + CHUNK_SIZE) (length mediaData);
             chunk = slice mediaData start end';
             request = APPEND mediaId i chunk
         in case requestApi trace request of
              Inl err \<Rightarrow> (Some (AppendFailed (i + 1) chunks), trace @ [Sent request])
            | Inr v \<Rightarrow>
                append_loop requestApi mediaData mediaId chunks (i + 1) (trace @ [Sent request]))
      else (None, trace))"
  by pat_completeness auto
termination
  by (relation "measure (\<lambda>(requestApi, mediaData, mediaId, chunks, i, trace). chunks - i)") auto

text \<open>
  \<^verbatim>\<open>checkMediaProcessingStatus\<close>. \<open>or_default x d\<close> is \<^verbatim>\<open>x || d\<close> on an optional
  number: \<^verbatim>\<open>undefined\<close> and \<^verbatim>\<open>0\<close> are falsy.
\<close>

definition maxAttempts :: nat where
  "maxAttempts = 10"

fun or_default :: "nat option \<Rightarrow> nat \<Rightarrow> nat" where
  "or_default None d = d"
| "or_default (Some n) d = (if n = 0 then d else n)"

function poll_loop ::
  "UploadApi \<Rightarrow> string \<Rightarrow> nat \<Rightarrow> Event list \<Rightarrow> (error + MediaUploadResponse) \<times> Event list" where
  "poll_loop requestApi mediaId attempts trace =
     (if attempts < maxAttempts then
        (let request = STATUS mediaId; trace1 = trace @ [Sent request] in
         case requestApi trace request of
           Inl err \<Rightarrow> (Inl StatusCheckFailed, trace1)
         | Inr v \<Rightarrow>
             (case processing_info v of
                None \<Rightarrow> (Inr v, trace1)
              | Some processingInfo \<Rightarrow>
                  if state processingInfo = ''succeeded'' then (Inr v, trace1)
                  else if state processingInfo = ''failed'' then (Inl ProcessingFailed, trace1)
                  else (let waitTime = or_default (check_after_secs processingInfo) 5 * 1000
                        in poll_loop requestApi mediaId (attempts + 1) (trace1 @ [Wait waitTime]))))
      else (Inl ProcessingTimedOut, trace))"
  by pat_completeness auto
termination
  by (relation "measure (\<lambda>(requestApi, mediaId, attempts, trace). maxAttempts - attempts)") auto

definition checkMediaProcessingStatus ::
  "UploadApi \<Rightarrow> string \<Rightarrow> Event list \<Rightarrow> (error + MediaUploadResponse) \<times> Event list" where
  "checkMediaProcessingStatus requestApi mediaId trace = poll_loop requestApi mediaId 0 trace"

text \<open>The two loops are unfolded by hand in the proofs.\<close>

declare append_loop.simps [simp del]
declare poll_loop.simps [simp del]

text \<open>
  \<^verbatim>\<open>uploadMedia\<close>. The \<^verbatim>\<open>catch\<close> block logs and throws the same error again. A
  \<^verbatim>\<open>media_id_string\<close> that is \<^verbatim>\<open>undefined\<close> or empty is falsy.
\<close>

definition uploadMedia ::
  "UploadApi \<Rightarrow> byte list \<Rightarrow> MediaType \<Rightarrow> (error + MediaUploadResponse) \<times> Event list" where
  "uploadMedia requestApi mediaData mediaType =
     (let totalBytes = length mediaData;
          isVideo = (mediaType = VideoMp4);
          mediaCategory = (if isVideo then ''tweet_video'' else ''tweet_image'');
          initRequest = INIT totalBytes mediaType mediaCategory;
          trace0 = [Sent initRequest]
      in case requestApi [] initRequest of
           Inl err \<Rightarrow> (Inl InitFailed, trace0)
         | Inr initValue \<Rightarrow>
             (case media_id_string initValue of
                None \<Rightarrow> (Inl InitFailed, trace0)
              | Some mediaId \<Rightarrow>
                  if mediaId = [] then (Inl InitFailed, trace0)
                  else
                    (let chunks = (if isVideo then chunk_count totalBytes else 1) in
                     case append_loop requestApi mediaData mediaId chunks 0 trace0 of
                       (Some err, trace1) \<Rightarrow> (Inl err, trace1)
                     | (None, trace1) \<Rightarrow>
                         (let finalizeRequest = FINALIZE mediaId;
                              trace2 = trace1 @ [Sent finalizeRequest]
                          in case requestApi trace1 finalizeRequest of
                               Inl err \<Rightarrow> (Inl FinalizeFailed, trace2)
                             | Inr finalizeValue \<Rightarrow>
                                 if isVideo \<and> processing_info finalizeValue \<noteq> None
                                 then checkMediaProcessingStatus requestApi mediaId trace2
                                 else (Inr finalizeValue, trace2)))))"

text \<open>
  Vocabulary for the statements: the bytes of chunk \<open>k\<close>; the APPEND requests for the
  chunks \<open>i, \<dots>, k - 1\<close> in order; the events of the polling phase; the number of
  APPEND requests and of STATUS requests in a trace.
\<close>

definition chunk_of :: "byte list \<Rightarrow> nat \<Rightarrow> byte list" where
  "chunk_of mediaData k = take CHUNK_SIZE (drop (k * CHUNK_SIZE) mediaData)"

definition appends :: "string \<Rightarrow> byte list \<Rightarrow> nat \<Rightarrow> nat \<Rightarrow> Event list" where
  "appends mediaId mediaData i k =
     map (\<lambda>j. Sent (APPEND mediaId j (chunk_of mediaData j))) [i..<k]"

fun is_poll :: "string \<Rightarrow> Event \<Rightarrow> bool" where
  "is_poll mediaId (Sent request) = (request = STATUS mediaId)"
| "is_poll mediaId (Wait ms) = True"

fun is_append :: "Event \<Rightarrow> bool" where
  "is_append (Sent (APPEND m i chunk)) = True"
| "is_append e = False"

fun is_status :: "Event \<Rightarrow> bool" where
  "is_status (Sent (STATUS m)) = True"
| "is_status e = False"

text \<open>
  The ways the polling can end, for a result and the number of STATUS requests sent:
  a response without a processing descriptor or with the state \<^verbatim>\<open>succeeded\<close>; the
  error for a reported failure; the error for a STATUS request that itself failed; the
  time-out error, after \<^verbatim>\<open>maxAttempts\<close> requests.
\<close>

definition poll_outcome :: "error + MediaUploadResponse \<Rightarrow> nat \<Rightarrow> bool" where
  "poll_outcome res polls =
     (case res of
        Inr v \<Rightarrow> (case processing_info v of
                    None \<Rightarrow> True
                  | Some info \<Rightarrow> state info = ''succeeded'')
      | Inl e \<Rightarrow> e = ProcessingFailed \<or> e = StatusCheckFailed
                 \<or> e = ProcessingTimedOut \<and> polls = maxAttempts)"

text \<open>
  More vocabulary for the polling. \<open>in_progress\<close>: a STATUS response that leaves the
  processing pending, that is a successful one whose descriptor has a state other than
  \<^verbatim>\<open>succeeded\<close> and \<^verbatim>\<open>failed\<close>. \<open>pause_after\<close>: the milliseconds waited after such a
  response, 1000 times \<^verbatim>\<open>check_after_secs\<close>, or 5000 when that number is absent or zero.
  \<open>pending_polls api mid tr k\<close>: the trace \<open>tr\<close> extended by \<open>k\<close> polls, each a STATUS
  request followed by the pause after its response.
\<close>

definition in_progress :: "error + MediaUploadResponse \<Rightarrow> bool" where
  "in_progress res =
     (case res of
        Inl err \<Rightarrow> False
      | Inr v \<Rightarrow> (case processing_info v of
                    None \<Rightarrow> False
                  | Some info \<Rightarrow> state info \<noteq> ''succeeded'' \<and> state info \<noteq> ''failed''))"

definition pause_after :: "error + MediaUploadResponse \<Rightarrow> nat" where
  "pause_after res =
     (case res of
        Inl err \<Rightarrow> 0
      | Inr v \<Rightarrow> (case processing_info v of
                    None \<Rightarrow> 0
                  | Some info \<Rightarrow>
                      1000 * (case check_after_secs info of
                                None \<Rightarrow> 5
                              | Some secs \<Rightarrow> if secs = 0 then 5 else secs)))"

fun pending_polls :: "UploadApi \<Rightarrow> string \<Rightarrow> Event list \<Rightarrow> nat \<Rightarrow> Event list" where
  "pending_polls api mid tr 0 = tr"
| "pending_polls api mid tr (Suc k) =
     pending_polls api mid tr k
       @ [Sent (STATUS mid), Wait (pause_after (api (pending_polls api mid tr k) (STATUS mid)))]"

text \<open>
  Concrete services for the examples below. \<open>video_service\<close> accepts everything, puts
  a processing descriptor on its FINALIZE response and keeps reporting the processing
  as in progress. \<open>flaky_service\<close> differs in failing the APPEND of segment 1,
  \<open>ready_service\<close> in reporting success at the third STATUS request,
  \<open>unreachable_status_service\<close> in failing every STATUS request, \<open>failed_service\<close> in
  reporting the state \<^verbatim>\<open>failed\<close>, and \<open>settled_service\<close> in answering STATUS without a
  processing descriptor.
\<close>

definition ok_id :: MediaUploadResponse where
  "ok_id = \<lparr>media_id_string = Some ''710'', processing_info = None\<rparr>"

definition pending :: "nat option \<Rightarrow> MediaUploadResponse" where
  "pending secs = \<lparr>media_id_string = Some ''710'',
      processing_info = Some \<lparr>state = ''in_progress'', check_after_secs = secs\<rparr>\<rparr>"

definition video_service :: UploadApi where
  "video_service trace request =
     (case request of
        INIT n t c \<Rightarrow> Inr ok_id
      | APPEND m i chunk \<Rightarrow> Inr \<lparr>media_id_string = None, processing_info = None\<rparr>
      | FINALIZE m \<Rightarrow> Inr (pending (Some 2))
      | STATUS m \<Rightarrow> Inr (pending None))"

definition succeeded :: MediaUploadResponse where
  "succeeded = \<lparr>media_id_string = Some ''710'',
      processing_info = Some \<lparr>state = ''succeeded'', check_after_secs = None\<rparr>\<rparr>"

definition flaky_service :: UploadApi where
  "flaky_service trace request =
     (case request of
        APPEND m i chunk \<Rightarrow> if i = 1 then Inl (ApiError ''503'') else video_service trace request
      | _ \<Rightarrow> video_service trace request)"

definition ready_service :: UploadApi where
  "ready_service trace request =
     (case request of
        STATUS m \<Rightarrow> if length (filter is_status trace) < 2 then Inr (pending (Some 0))
                    else Inr succeeded
      | _ \<Rightarrow> video_service trace request)"

definition unreachable_status_service :: UploadApi where
  "unreachable_status_service trace request =
     (case request of
        STATUS m \<Rightarrow> Inl (ApiError ''timeout'')
      | _ \<Rightarrow> video_service trace request)"

definition failed_service :: UploadApi where
  "failed_service trace request =
     (case request of
        STATUS m \<Rightarrow> Inr \<lparr>media_id_string = Some ''710'',
                         processing_info = Some \<lparr>state = ''failed'', check_after_secs = None\<rparr>\<rparr>
      | _ \<Rightarrow> video_service trace request)"

definition settled_service :: UploadApi where
  "settled_service trace request =
     (case request of
        STATUS m \<Rightarrow> Inr ok_id
      | _ \<Rightarrow> video_service trace request)"

text \<open>
  Concrete services for the examples below: a tweet that has only an id; a service whose
  first page is the tweets 1, 2 with cursor \<^verbatim>\<open>c1\<close> and whose every later page is the
  tweets 2, 3 without a cursor; a service that answers by cursor, with the tweets 1, 2 and
  the cursor \<^verbatim>\<open>c1\<close> when no cursor is sent, with the tweet 3 and an empty cursor for
  \<^verbatim>\<open>c1\<close>, and with an error for any other cursor; a service that gives one tweet per
  page and the same cursor \<^verbatim>\<open>c\<close> every time.
\<close>

definition tweet_with_id :: "string \<Rightarrow> Tweet" where
  "tweet_with_id i = [(''id'', JString i)]"

definition two_page_service :: TimelineApi where
  "two_page_service n count cursor =
     (if n = 0 then Inr \<lparr>tweets = [tweet_with_id ''1'', tweet_with_id ''2''], next = Some ''c1''\<rparr>
      else Inr \<lparr>tweets = [tweet_with_id ''2'', tweet_with_id ''3''], next = None\<rparr>)"

definition cursor_service :: TimelineApi where
  "cursor_service n count cursor =
     (if cursor = None then Inr \<lparr>tweets = [tweet_with_id ''1'', tweet_with_id ''2''], next = Some ''c1''\<rparr>
      else if cursor = Some ''c1'' then Inr \<lparr>tweets = [tweet_with_id ''3''], next = Some ''''\<rparr>
      else Inl (ApiError ''bad cursor''))"

definition stalled_service :: TimelineApi where
  "stalled_service n count cursor =
     Inr \<lparr>tweets = [tweet_with_id (if n = 0 then ''1'' else if n = 1 then ''2'' else ''3'')],
          next = Some ''c''\<rparr>"

section \<open>Session: theorems\<close>

lemma login_failure_state: "login n s c = (Inl e, s') \<Longrightarrow> s' = s"
  by (auto simp: login_def Let_def split: sum.splits)

text \<open>
  C1. When a login attempt fails, the call leaves the Scraper as it was: the two auth
  fields and the token are those from before the call. A later login therefore runs
  its negotiation on a newly constructed user-auth object, exactly as it would have
  without the failed attempt.
\<close>

theorem login_failure_keeps_session:
  assumes "fst (login n s c) = Inl e"
  shows "snd (login n s c) = s
       \<and> login n' (snd (login n s c)) c' =
           (case n' (new_TwitterUserAuth (token s)) c' of
              Inl e' \<Rightarrow> (Inl e', s)
            | Inr u \<Rightarrow> (Inr (), s\<lparr>auth := u, authTrends := u\<rparr>))"
proof -
  obtain s' where r: "login n s c = (Inl e, s')"
    using assms by (cases "login n s c") auto
  then have "s' = s" by (rule login_failure_state)
  with r have "snd (login n s c) = s" by simp
  then show ?thesis by (simp add: login_def Let_def)
qed

theorem login_failure_keeps_session_witness:
  "fst (login password_negotiation imported_session (alice ''guess'')) =
     Inl (ApiError ''Unknown subtask DenyLoginSubtask'')
   \<and> snd (login password_negotiation imported_session (alice ''guess'')) = imported_session
   \<and> isLoggedIn (snd (login password_negotiation imported_session (alice ''guess'')))
   \<and> fst (login password_negotiation
            (snd (login password_negotiation imported_session (alice ''guess'')))
            (alice ''hunter2'')) = Inr ()"
proof -
  have h: "fst (login password_negotiation imported_session (alice ''guess'')) =
     Inl (ApiError ''Unknown subtask DenyLoginSubtask'')"
    by (simp add: login_def password_negotiation_def alice_def)
  have l: "isLoggedIn imported_session"
    by (simp add: imported_session_def setCookies_def Let_def isLoggedIn_def auth_isLoggedIn_def
          new_TwitterUserAuth_def)
  note k = login_failure_keeps_session [OF h, of password_negotiation "alice ''hunter2''"]
  from k have a: "snd (login password_negotiation imported_session (alice ''guess'')) =
      imported_session"
    by (rule conjunct1)
  have b: "fst (login password_negotiation
            (snd (login password_negotiation imported_session (alice ''guess'')))
            (alice ''hunter2'')) = Inr ()"
    unfolding k [THEN conjunct2] by (simp add: password_negotiation_def alice_def)
  from h l a b show ?thesis by simp
qed

text \<open>The cookie store keeps one record per (domain, path, name).\<close>

lemma jar_setCookie_new:
  "cookie_id c \<notin> cookie_id ` set j \<Longrightarrow> jar_setCookie j c url = j @ [c]"
  by (induction j) auto

lemma jar_setCookie_ids:
  "cookie_id ` set (jar_setCookie j c url) = insert (cookie_id c) (cookie_id ` set j)"
  by (induction j) auto

lemma jar_setCookie_wf: "jar_wf j \<Longrightarrow> jar_wf (jar_setCookie j c url)"
proof (induction j)
  case Nil
  then show ?case by (simp add: jar_wf_def)
next
  case (Cons d ds)
  then have "jar_wf ds" by (simp add: jar_wf_def)
  with Cons show ?case
    using jar_setCookie_ids [of ds c url] by (auto simp: jar_wf_def)
qed

lemma setCookies_loop_distinct:
  "distinct (map cookie_id (jar u @ cs)) \<Longrightarrow> setCookies_loop u cs = u\<lparr>jar := jar u @ cs\<rparr>"
proof (induction cs arbitrary: u)
  case Nil
  then show ?case by simp
next
  case (Cons c cs)
  then have new: "cookie_id c \<notin> cookie_id ` set (jar u)" by auto
  let ?u = "u\<lparr>jar := jar u @ [c]\<rparr>"
  from Cons.prems have "distinct (map cookie_id (jar ?u @ cs))" by simp
  from Cons.IH [OF this] show ?case by (simp add: jar_setCookie_new [OF new])
qed

lemma setCookies_loop_wf: "jar_wf (jar u) \<Longrightarrow> jar_wf (jar (setCookies_loop u cs))"
  by (induction cs arbitrary: u) (simp_all add: jar_setCookie_wf)

lemma setCookies_wf: "jar_wf (jar (authTrends (setCookies s cs)))"
proof -
  have "jar_wf (jar (new_TwitterUserAuth (token s)))"
    by (simp add: new_TwitterUserAuth_def jar_wf_def)
  then have "jar_wf (jar (setCookies_loop (new_TwitterUserAuth (token s)) cs))"
    by (rule setCookies_loop_wf)
  then show ?thesis by (simp add: setCookies_def Let_def)
qed

lemma new_Scraper_wf: "jar_wf (jar (authTrends (new_Scraper b)))"
  by (simp add: new_Scraper_def useGuestAuth_def new_TwitterGuestAuth_def jar_wf_def)

text \<open>
  C2. For every session whose cookie store holds one record per (domain, path, name),
  importing the cookies it exports into a new Scraper gives a session that reports
  logged in, without any login negotiation, and that exports the same sequence of
  cookies.
\<close>

theorem cookie_round_trip:
  assumes "jar_wf (jar (authTrends s))"
  shows "isLoggedIn (setCookies (new_Scraper b) (getCookies s))
       \<and> getCookies (setCookies (new_Scraper b) (getCookies s)) = getCookies s"
proof -
  let ?u = "new_TwitterUserAuth (token (new_Scraper b))"
  have "distinct (map cookie_id (jar ?u @ getCookies s))"
    using assms by (simp add: new_TwitterUserAuth_def getCookies_def jar_getCookies_def jar_wf_def)
  then have "setCookies_loop ?u (getCookies s) = ?u\<lparr>jar := jar ?u @ getCookies s\<rparr>"
    by (rule setCookies_loop_distinct)
  then show ?thesis
    by (simp add: setCookies_def Let_def isLoggedIn_def auth_isLoggedIn_def getCookies_def
          jar_getCookies_def new_TwitterUserAuth_def)
qed

theorem cookie_round_trip_witness:
  "jar_wf (jar (authTrends imported_session))
   \<and> getCookies imported_session = [auth_token_cookie, ct0_cookie]
   \<and> isLoggedIn (setCookies (new_Scraper ''BBBB'') (getCookies imported_session))
   \<and> getCookies (setCookies (new_Scraper ''BBBB'') (getCookies imported_session)) =
       [auth_token_cookie, ct0_cookie]"
proof -
  have g: "getCookies imported_session = [auth_token_cookie, ct0_cookie]"
    by (simp add: imported_session_def setCookies_def Let_def getCookies_def jar_getCookies_def
          new_TwitterUserAuth_def auth_token_cookie_def ct0_cookie_def cookie_id_def)
  have w: "jar_wf (jar (authTrends imported_session))"
    using g by (simp add: getCookies_def jar_getCookies_def jar_wf_def
          auth_token_cookie_def ct0_cookie_def cookie_id_def)
  from cookie_round_trip [OF w, of "''BBBB''"] g w show ?thesis by simp
qed

section \<open>Pagination: theorems\<close>

lemma yield_tweets_eq:
  "r < m \<Longrightarrow> yield_tweets m ts r out = (min m (r + length ts), out @ take (m - r) ts)"
proof (induction ts arbitrary: r out)
  case Nil
  then show ?case by simp
next
  case (Cons t ts)
  show ?case
  proof (cases "r + 1 \<ge> m")
    case True
    with Cons.prems have "m - r = 1" by simp
    with True show ?thesis by simp
  next
    case False
    then have lt: "r + 1 < m" by simp
    then have "m - r = Suc (m - (r + 1))" by simp
    with False Cons.IH [OF lt] show ?thesis by simp
  qed
qed

lemma iterate_stop: "\<not> r < m \<Longrightarrow> iterate api m cur r run = Some run"
  by (subst iterate.simps) simp

lemma iterate_error:
  "r < m \<Longrightarrow> getUserTweets api (length (requests run)) (m - r) cur = Inl e \<Longrightarrow>
   iterate api m cur r run =
     Some (run\<lparr>requests := requests run @ [(m - r, cur)], thrown := Some e\<rparr>)"
  by (subst iterate.simps) (simp add: Let_def)

lemma iterate_page:
  "r < m \<Longrightarrow> getUserTweets api (length (requests run)) (m - r) cur = Inr p \<Longrightarrow>
   iterate api m cur r run =
     (let run' = run\<lparr>requests := requests run @ [(m - r, cur)],
                      yielded := yielded run @ take (m - r) (tweets p)\<rparr>
      in if \<not> truthy (next p) then Some run'
         else iterate api m (next p) (min m (r + length (tweets p))) run')"
  by (subst iterate.simps) (simp add: Let_def yield_tweets_eq)

lemma iterate_ends:
  "ends_within api k (length (requests run)) cur \<Longrightarrow>
   \<exists>run'. iterate api m cur r run = Some run'
        \<and> length (requests run') \<le> length (requests run) + k
        \<and> length (yielded run') \<le> length (yielded run) + (m - r)"
proof (induction k arbitrary: cur r run)
  case 0
  then show ?case by simp
next
  case (Suc k)
  show ?case
  proof (cases "r < m")
    case False
    then show ?thesis by (simp add: iterate_stop)
  next
    case True
    show ?thesis
    proof (cases "getUserTweets api (length (requests run)) (m - r) cur")
      case (Inl e)
      with True show ?thesis by (simp add: iterate_error)
    next
      case (Inr p)
      let ?run' = "run\<lparr>requests := requests run @ [(m - r, cur)],
                      yielded := yielded run @ take (m - r) (tweets p)\<rparr>"
      show ?thesis
      proof (cases "truthy (next p)")
        case False
        with True Inr show ?thesis by (simp add: iterate_page Let_def)
      next
        case t: True
        from Suc.prems Inr t have "ends_within api k (Suc (length (requests run))) (next p)"
          by (auto dest!: spec [of _ "m - r"])
        then have "ends_within api k (length (requests ?run')) (next p)" by simp
        from Suc.IH [OF this, of "min m (r + length (tweets p))"]
        obtain run'' where r: "iterate api m (next p) (min m (r + length (tweets p))) ?run' = Some run''"
          "length (requests run'') \<le> length (requests ?run') + k"
          "length (yielded run'') \<le> length (yielded ?run') + (m - min m (r + length (tweets p)))"
          by blast
        have "length (yielded ?run') + (m - min m (r + length (tweets p))) \<le> length (yielded run) + (m - r)"
          using True by (auto simp: min_def)
        with r True Inr t show ?thesis by (simp add: iterate_page Let_def)
      qed
    qed
  qed
qed

lemma exhausted_ends:
  "exhausted_at api N \<Longrightarrow> n \<le> N \<Longrightarrow> ends_within api (Suc (N - n)) n cur"
proof (induction "N - n" arbitrary: n cur)
  case 0
  then have "n = N" by simp
  with 0 show ?case
    by (auto simp: exhausted_at_def getUserTweets_def Let_def split: sum.splits)
next
  case (Suc k)
  then have "k = N - Suc n" "Suc n \<le> N" by simp_all
  from Suc(1) [OF this(1) Suc.prems(1) this(2)] Suc(2)
  have "\<And>c. ends_within api (N - n) (Suc n) c"
    by (metis Suc_diff_Suc Suc_le_lessD \<open>Suc n \<le> N\<close>)
  then show ?case by (auto split: sum.splits)
qed

lemma iterate_nonempty:
  assumes "pages_nonempty api"
  shows "\<exists>run'. iterate api m cur r run = Some run'
              \<and> length (requests run') \<le> length (requests run) + (m - r)"
proof (induction "m - r" arbitrary: cur r run rule: less_induct)
  case less
  show ?case
  proof (cases "r < m")
    case False
    then show ?thesis by (simp add: iterate_stop)
  next
    case True
    show ?thesis
    proof (cases "getUserTweets api (length (requests run)) (m - r) cur")
      case (Inl e)
      with True show ?thesis by (simp add: iterate_error)
    next
      case (Inr p)
      with assms have ne: "tweets p \<noteq> []"
        by (auto simp: pages_nonempty_def getUserTweets_def Let_def split: sum.splits dest!: spec)
      let ?run' = "run\<lparr>requests := requests run @ [(m - r, cur)],
                      yielded := yielded run @ take (m - r) (tweets p)\<rparr>"
      let ?r' = "min m (r + length (tweets p))"
      show ?thesis
      proof (cases "truthy (next p)")
        case False
        with True Inr show ?thesis by (simp add: iterate_page Let_def)
      next
        case t: True
        from ne obtain n where "length (tweets p) = Suc n" by (cases "tweets p") auto
        with True have d: "m - ?r' < m - r" by (auto simp: min_def)
        from less [OF d, of "next p" ?run']
        obtain run'' where r: "iterate api m (next p) ?r' ?run' = Some run''"
          "length (requests run'') \<le> length (requests ?run') + (m - ?r')"
          by blast
        from d have "length (requests ?run') + (m - ?r') \<le> length (requests run) + (m - r)"
          by simp
        with r True Inr t show ?thesis by (simp add: iterate_page Let_def)
      qed
    qed
  qed
qed

lemma length_responses_from [simp]: "length (responses_from api n reqs) = length reqs"
  by (induction reqs arbitrary: n) auto

lemma iterate_run:
  assumes "iterate api m cur r run = Some run'"
  shows "\<exists>reqs. requests run' = requests run @ reqs
           \<and> follows_loop api m (length (requests run)) cur r reqs
           \<and> yielded run' = yielded run
                @ take (m - r) (concat (map page_tweets (responses_from api (length (requests run)) reqs)))"
proof (rule iterate.raw_induct
         [where P = "\<lambda>api m cur r run run'. \<exists>reqs. requests run' = requests run @ reqs
           \<and> follows_loop api m (length (requests run)) cur r reqs
           \<and> yielded run' = yielded run
                @ take (m - r) (concat (map page_tweets (responses_from api (length (requests run)) reqs)))",
          OF _ assms], goal_cases)
  case (1 iterate' api m cur r run run')
  show ?case
  proof (cases "r < m")
    case False
    with 1(2) have "run' = run" by simp
    with False show ?thesis by (intro exI [of _ "[]"]) simp
  next
    case True
    let ?n = "length (requests run)"
    show ?thesis
    proof (cases "getUserTweets api ?n (m - r) cur")
      case (Inl e)
      with True 1(2) have "run' = run\<lparr>requests := requests run @ [(m - r, cur)], thrown := Some e\<rparr>"
        by (simp add: Let_def)
      with True Inl show ?thesis by (intro exI [of _ "[(m - r, cur)]"]) simp
    next
      case (Inr p)
      let ?run1 = "run\<lparr>requests := requests run @ [(m - r, cur)],
                 yielded := yielded run @ take (m - r) (tweets p)\<rparr>"
      show ?thesis
      proof (cases "truthy (next p)")
        case False
        with True Inr 1(2) have "run' = ?run1"
          by (simp add: Let_def yield_tweets_eq)
        with True Inr False show ?thesis by (intro exI [of _ "[(m - r, cur)]"]) simp
      next
        case t: True
        let ?r' = "min m (r + length (tweets p))"
        from t True Inr 1(2) have "iterate' api m (next p) ?r' ?run1 = Some run'"
          by (simp add: Let_def yield_tweets_eq)
        from 1(1) [OF this] obtain reqs where
          a: "requests run' = requests ?run1 @ reqs"
          and b: "follows_loop api m (length (requests ?run1)) (next p) ?r' reqs"
          and c: "yielded run' = yielded ?run1
                @ take (m - ?r') (concat (map page_tweets (responses_from api (length (requests ?run1)) reqs)))"
          by blast
        have d: "m - ?r' = m - r - length (tweets p)" by simp
        show ?thesis
          using a b c True Inr t
          by (intro exI [of _ "(m - r, cur) # reqs"]) (simp add: d)
      qed
    qed
  qed
qed

lemma follows_next:
  "follows_loop api m n cur r reqs \<Longrightarrow> j < length reqs \<Longrightarrow>
   responses_from api n reqs ! j = Inr q \<Longrightarrow> truthy (next q) \<Longrightarrow>
   r + length (concat (map page_tweets (take (Suc j) (responses_from api n reqs)))) < m \<Longrightarrow>
   Suc j < length reqs \<and>
   reqs ! Suc j =
     (m - (r + length (concat (map page_tweets (take (Suc j) (responses_from api n reqs))))), next q)"
proof (induction reqs arbitrary: n cur r j)
  case Nil
  then show ?case by simp
next
  case (Cons req rest)
  from Cons.prems(1) have lt: "r < m" and req: "req = (m - r, cur)" by simp_all
  show ?case
  proof (cases "getUserTweets api n (m - r) cur")
    case (Inl e)
    with Cons.prems(1) have rest: "rest = []" by simp
    with Cons.prems(2) have "j = 0" by simp
    with Cons.prems(3) Inl req show ?thesis by simp
  next
    case (Inr p)
    let ?r' = "min m (r + length (tweets p))"
    show ?thesis
    proof (cases j)
      case 0
      with Cons.prems(3) Inr req have pq: "p = q" by simp
      from Cons.prems(5) 0 Inr req have small: "r + length (tweets p) < m" by simp
      from Cons.prems(1,4) Inr pq have f: "follows_loop api m (Suc n) (next p) ?r' rest" by simp
      from small have r': "?r' = r + length (tweets p)" by simp
      with f small obtain req' rest' where rest: "rest = req' # rest'" by (cases rest) auto
      with f r' small have "req' = (m - (r + length (tweets p)), next p)" by simp
      with 0 rest Inr req pq show ?thesis by simp
    next
      case (Suc j')
      with Cons.prems(2) have ne: "rest \<noteq> []" by auto
      with Cons.prems(1) Inr have t: "truthy (next p)"
        and f: "follows_loop api m (Suc n) (next p) ?r' rest" by (auto split: if_splits)
      from Cons.prems(5) Suc Inr req
      have small: "r + length (tweets p)
          + length (concat (map page_tweets (take (Suc j') (responses_from api (Suc n) rest)))) < m"
        by simp
      then have r': "?r' = r + length (tweets p)" by simp
      from Cons.prems(2,3) Suc req have a: "j' < length rest"
        "responses_from api (Suc n) rest ! j' = Inr q" by simp_all
      from small have b: "?r' + length (concat (map page_tweets (take (Suc j') (responses_from api (Suc n) rest)))) < m"
        unfolding r' .
      from Cons.IH [OF f a Cons.prems(4) b]
      show ?thesis using Suc Inr req unfolding r' by (simp add: add.assoc)
    qed
  qed
qed

lemma run_shape:
  assumes "getUserTweetsIterator api cap = Some run"
  shows "follows_loop api cap 0 None 0 (requests run)"
    and "yielded run = take cap (fetched api run (length (requests run)))"
proof -
  from assms have "iterate api cap None 0 \<lparr>yielded = [], requests = [], thrown = None\<rparr> = Some run"
    by (simp add: getUserTweetsIterator_def)
  from iterate_run [OF this] obtain reqs where
    a: "requests run = reqs" and b: "follows_loop api cap 0 None 0 reqs"
    and c: "yielded run = take cap (concat (map page_tweets (responses_from api 0 reqs)))"
    by auto
  from a b show "follows_loop api cap 0 None 0 (requests run)" by simp
  from a c show "yielded run = take cap (fetched api run (length (requests run)))"
    by (simp add: fetched_def responses_def)
qed

lemma fetched_Suc:
  "k < length (requests run) \<Longrightarrow>
   fetched api run (Suc k) = fetched api run k @ page_tweets (responses api run ! k)"
  by (simp add: fetched_def responses_def take_Suc_conv_app_nth)

lemma fetched_prefix:
  "k \<le> n \<Longrightarrow> \<exists>ext. fetched api run n = fetched api run k @ ext"
proof -
  assume "k \<le> n"
  then have "take n (responses api run) =
      take k (responses api run) @ take (n - k) (drop k (responses api run))"
    by (metis le_add_diff_inverse take_add)
  then show ?thesis by (simp add: fetched_def)
qed

lemma two_page_run:
  "getUserTweetsIterator two_page_service 10 =
     Some \<lparr>yielded = [tweet_with_id ''1'', tweet_with_id ''2'', tweet_with_id ''2'', tweet_with_id ''3''],
           requests = [(10, None), (8, Some ''c1'')], thrown = None\<rparr>"
  by (simp add: getUserTweetsIterator_def iterate.simps getUserTweets_def two_page_service_def)

lemma stalled_run:
  "getUserTweetsIterator stalled_service 3 =
     Some \<lparr>yielded = [tweet_with_id ''1'', tweet_with_id ''2'', tweet_with_id ''3''],
           requests = [(3, None), (2, Some ''c''), (1, Some ''c'')], thrown = None\<rparr>"
  by (simp add: getUserTweetsIterator_def iterate.simps getUserTweets_def stalled_service_def)

text \<open>
  C3. If, following the cursors from the first request, the service reaches a page
  without a cursor (absent or empty) within \<open>K\<close> pages, then for every cap the iterator
  ends: the run has a result, it yields at most \<open>cap\<close> tweets and fetches at most \<open>K\<close>
  pages. With cap 0 it yields nothing and fetches nothing, for every service.
\<close>

theorem pagination_terminates_within_cap:
  "(ends_within api K 0 None \<longrightarrow>
      (\<exists>run. getUserTweetsIterator api cap = Some run
           \<and> length (yielded run) \<le> cap \<and> length (requests run) \<le> K))
   \<and> getUserTweetsIterator api 0 = Some \<lparr>yielded = [], requests = [], thrown = None\<rparr>"
proof (intro conjI impI)
  assume "ends_within api K 0 None"
  then have "ends_within api K (length (requests \<lparr>yielded = [], requests = [], thrown = None\<rparr>)) None"
    by simp
  from iterate_ends [OF this, of cap 0]
  show "\<exists>run. getUserTweetsIterator api cap = Some run
           \<and> length (yielded run) \<le> cap \<and> length (requests run) \<le> K"
    by (auto simp: getUserTweetsIterator_def)
next
  show "getUserTweetsIterator api 0 = Some \<lparr>yielded = [], requests = [], thrown = None\<rparr>"
    by (simp add: getUserTweetsIterator_def iterate_stop)
qed

theorem pagination_terminates_within_cap_witness:
  "ends_within cursor_service (Suc (Suc 0)) 0 None
   \<and> (\<exists>run. getUserTweetsIterator cursor_service 5 = Some run
        \<and> length (yielded run) \<le> 5 \<and> length (requests run) \<le> 2)"
proof -
  have h: "ends_within cursor_service (Suc (Suc 0)) 0 None"
    by (simp add: cursor_service_def getUserTweets_def)
  with pagination_terminates_within_cap [of cursor_service "Suc (Suc 0)" 5]
  show ?thesis by (simp add: numeral_2_eq_2)
qed

lemma with_id_append: "with_id i (xs @ ys) = with_id i xs + with_id i ys"
  by (simp add: with_id_def)

text \<open>
  C4 as stated fails: pages (1, 2) and (2, 3) share the boundary id 2, and the run with
  cap 10 yields the tweet with id 2 twice.
\<close>

theorem boundary_item_yielded_twice:
  "getUserTweetsIterator two_page_service 10 =
     Some \<lparr>yielded = [tweet_with_id ''1'', tweet_with_id ''2'', tweet_with_id ''2'', tweet_with_id ''3''],
           requests = [(10, None), (8, Some ''c1'')], thrown = None\<rparr>
   \<and> with_id ''2'' (yielded (the (getUserTweetsIterator two_page_service 10))) = 2"
  by (simp add: getUserTweetsIterator_def iterate.simps getUserTweets_def two_page_service_def
        with_id_def tweet_with_id_def js_get_def)

text \<open>
  C4, as amended. The iterator keeps no set of emitted ids and skips nothing: a run
  that returns has yielded the first \<open>cap\<close> of the tweets of all the pages it fetched,
  in order, repeats included. So for every two consecutive pages \<open>k\<close> and \<open>k + 1\<close> of
  the run that fit under the cap together with the pages before them, an id is yielded
  at least as many times as it occurs on the two pages: a boundary tweet present on
  both is yielded twice.
\<close>

theorem pages_yielded_without_dedup:
  assumes ret: "getUserTweetsIterator api cap = Some run"
  shows "yielded run = take cap (fetched api run (length (requests run)))
       \<and> (Suc k < length (requests run) \<and> length (fetched api run (k + 2)) \<le> cap \<longrightarrow>
            with_id i (page_tweets (responses api run ! k))
              + with_id i (page_tweets (responses api run ! Suc k))
            \<le> with_id i (yielded run))"
proof (intro conjI impI)
  show y: "yielded run = take cap (fetched api run (length (requests run)))"
    by (rule run_shape(2) [OF ret])
  assume h: "Suc k < length (requests run) \<and> length (fetched api run (k + 2)) \<le> cap"
  then have k: "k < length (requests run)" "Suc k < length (requests run)" by simp_all
  from h obtain ext where e: "fetched api run (length (requests run)) = fetched api run (k + 2) @ ext"
    using fetched_prefix [of "k + 2" "length (requests run)" api run] by auto
  have two: "fetched api run (k + 2) = fetched api run k @ page_tweets (responses api run ! k)
      @ page_tweets (responses api run ! Suc k)"
    using fetched_Suc [OF k(1), of api] fetched_Suc [OF k(2), of api] by simp
  from h have "yielded run = fetched api run (k + 2) @ take (cap - length (fetched api run (k + 2))) ext"
    unfolding y e by simp
  then show "with_id i (page_tweets (responses api run ! k))
              + with_id i (page_tweets (responses api run ! Suc k))
            \<le> with_id i (yielded run)"
    unfolding two by (simp add: with_id_append)
qed

text \<open>
  The pages (1, 2) and (2, 3) with cap 10: both are yielded whole, the id 2 twice.
\<close>

theorem pages_yielded_without_dedup_witness:
  "getUserTweetsIterator two_page_service 10 =
     Some \<lparr>yielded = [tweet_with_id ''1'', tweet_with_id ''2'', tweet_with_id ''2'', tweet_with_id ''3''],
           requests = [(10, None), (8, Some ''c1'')], thrown = None\<rparr>
   \<and> 2 \<le> with_id ''2'' [tweet_with_id ''1'', tweet_with_id ''2'', tweet_with_id ''2'', tweet_with_id ''3'']"
proof -
  let ?run = "\<lparr>yielded = [tweet_with_id ''1'', tweet_with_id ''2'', tweet_with_id ''2'', tweet_with_id ''3''],
           requests = [(10, None), (8, Some ''c1'')], thrown = None\<rparr>"
  have r: "responses two_page_service ?run =
      [Inr \<lparr>tweets = [tweet_with_id ''1'', tweet_with_id ''2''], next = Some ''c1''\<rparr>,
       Inr \<lparr>tweets = [tweet_with_id ''2'', tweet_with_id ''3''], next = None\<rparr>]"
    by (simp add: responses_def getUserTweets_def two_page_service_def)
  have h: "Suc 0 < length (requests ?run) \<and> length (fetched two_page_service ?run (0 + 2)) \<le> 10"
    by (simp add: fetched_def r)
  have w: "with_id ''2'' [tweet_with_id ''1'', tweet_with_id ''2''] = 1"
    "with_id ''2'' [tweet_with_id ''2'', tweet_with_id ''3''] = 1"
    by (simp_all add: with_id_def tweet_with_id_def js_get_def)
  from pages_yielded_without_dedup [OF two_page_run, of 0 "''2''", THEN conjunct2, THEN mp, OF h] two_page_run
  show ?thesis by (simp add: r w)
qed

text \<open>
  C5 as stated fails: the service that answers every request with one tweet and the
  cursor \<^verbatim>\<open>c\<close> is asked a third time, with the unchanged cursor, when the cap is 3.
\<close>

theorem third_fetch_after_repeated_cursor:
  "getUserTweetsIterator stalled_service 3 =
     Some \<lparr>yielded = [tweet_with_id ''1'', tweet_with_id ''2'', tweet_with_id ''3''],
           requests = [(3, None), (2, Some ''c''), (1, Some ''c'')], thrown = None\<rparr>
   \<and> length (requests (the (getUserTweetsIterator stalled_service 3))) = 3"
  by (simp add: getUserTweetsIterator_def iterate.simps getUserTweets_def stalled_service_def)

text \<open>
  C5, as amended. A cursor equal to the previous one is not treated as exhaustion. In
  a run that returns, when two consecutive pages \<open>j\<close> and \<open>j + 1\<close> carry the same
  non-empty cursor \<open>c\<close> and the pages fetched so far hold fewer than \<open>cap\<close> tweets, a
  further request follows, again with the cursor \<open>c\<close> and for the remaining count; the
  run stops after page \<open>j + 1\<close> only when \<open>cap\<close> tweets have been yielded. The loop
  cannot run forever when every page of the service is non-empty: then the run returns
  after at most \<open>cap\<close> fetches.
\<close>

theorem repeated_cursor_is_requested_again:
  "(getUserTweetsIterator api cap = Some run \<and> Suc j < length (requests run)
      \<and> responses api run ! j = Inr p \<and> responses api run ! Suc j = Inr q
      \<and> next p = Some c \<and> next q = Some c \<and> c \<noteq> [] \<longrightarrow>
        (length (fetched api run (j + 2)) < cap \<longrightarrow>
           j + 2 < length (requests run)
           \<and> requests run ! (j + 2) = (cap - length (fetched api run (j + 2)), Some c))
      \<and> (length (requests run) = j + 2 \<longrightarrow> length (yielded run) = cap))
   \<and> (pages_nonempty api \<longrightarrow>
        (\<exists>run'. getUserTweetsIterator api cap = Some run' \<and> length (requests run') \<le> cap))"
proof (intro conjI impI)
  assume h: "getUserTweetsIterator api cap = Some run \<and> Suc j < length (requests run)
      \<and> responses api run ! j = Inr p \<and> responses api run ! Suc j = Inr q
      \<and> next p = Some c \<and> next q = Some c \<and> c \<noteq> []"
  then have ret: "getUserTweetsIterator api cap = Some run" and j: "Suc j < length (requests run)"
    and q: "responses_from api 0 (requests run) ! Suc j = Inr q" and t: "truthy (next q)"
    by (simp_all add: responses_def)
  have third: "j + 2 < length (requests run)
           \<and> requests run ! (j + 2) = (cap - length (fetched api run (j + 2)), Some c)"
    if small: "length (fetched api run (j + 2)) < cap"
  proof -
    from small have "0 + length (concat (map page_tweets
        (take (Suc (Suc j)) (responses_from api 0 (requests run))))) < cap"
      by (simp add: fetched_def responses_def)
    from follows_next [OF run_shape(1) [OF ret] j q t this] h
    show ?thesis by (simp add: fetched_def responses_def)
  qed
  then show "length (fetched api run (j + 2)) < cap \<Longrightarrow> j + 2 < length (requests run)" by simp
  from third show "length (fetched api run (j + 2)) < cap \<Longrightarrow>
      requests run ! (j + 2) = (cap - length (fetched api run (j + 2)), Some c)" by simp
  assume last: "length (requests run) = j + 2"
  with third have "cap \<le> length (fetched api run (length (requests run)))"
    by (cases "length (fetched api run (j + 2)) < cap") simp_all
  then show "length (yielded run) = cap"
    unfolding run_shape(2) [OF ret] by simp
next
  assume "pages_nonempty api"
  from iterate_nonempty [OF this, of cap None 0 "\<lparr>yielded = [], requests = [], thrown = None\<rparr>"]
  show "\<exists>run'. getUserTweetsIterator api cap = Some run' \<and> length (requests run') \<le> cap"
    by (simp add: getUserTweetsIterator_def)
qed

text \<open>
  The service that gives one tweet and the cursor \<^verbatim>\<open>c\<close> every time, with cap 3: after
  the second page a third request is sent with \<^verbatim>\<open>c\<close>, for the one tweet that remains.
\<close>

theorem repeated_cursor_is_requested_again_witness:
  "getUserTweetsIterator stalled_service 3 =
     Some \<lparr>yielded = [tweet_with_id ''1'', tweet_with_id ''2'', tweet_with_id ''3''],
           requests = [(3, None), (2, Some ''c''), (1, Some ''c'')], thrown = None\<rparr>
   \<and> [(3, None), (2, Some ''c''), (1, Some ''c'')] ! 2 = (1::nat, Some ''c'')
   \<and> length (yielded (the (getUserTweetsIterator stalled_service 2))) = 2
   \<and> pages_nonempty stalled_service
   \<and> (\<exists>run'. getUserTweetsIterator stalled_service 3 = Some run' \<and> length (requests run') \<le> 3)"
proof -
  let ?run2 = "\<lparr>yielded = [tweet_with_id ''1'', tweet_with_id ''2''],
           requests = [(2, None), (1, Some ''c'')], thrown = None\<rparr>"
  have run2: "getUserTweetsIterator stalled_service 2 = Some ?run2"
    by (simp add: getUserTweetsIterator_def iterate.simps getUserTweets_def stalled_service_def)
  let ?run = "\<lparr>yielded = [tweet_with_id ''1'', tweet_with_id ''2'', tweet_with_id ''3''],
           requests = [(3, None), (2, Some ''c''), (1, Some ''c'')], thrown = None\<rparr>"
  let ?p = "\<lparr>tweets = [tweet_with_id ''1''], next = Some ''c''\<rparr>"
  let ?q = "\<lparr>tweets = [tweet_with_id ''2''], next = Some ''c''\<rparr>"
  have a: "pages_nonempty stalled_service"
    by (simp add: stalled_service_def pages_nonempty_def)
  have h: "getUserTweetsIterator stalled_service 3 = Some ?run \<and> Suc 0 < length (requests ?run)
      \<and> responses stalled_service ?run ! 0 = Inr ?p \<and> responses stalled_service ?run ! Suc 0 = Inr ?q
      \<and> next ?p = Some ''c'' \<and> next ?q = Some ''c'' \<and> ''c'' \<noteq> []"
    using stalled_run by (simp add: responses_def getUserTweets_def stalled_service_def)
  have s: "length (fetched stalled_service ?run (0 + 2)) < 3"
    by (simp add: fetched_def responses_def getUserTweets_def stalled_service_def)
  note t = repeated_cursor_is_requested_again
             [where api = stalled_service and cap = 3 and run = ?run and j = 0
                and p = ?p and q = ?q and c = "''c''"]
  from t [THEN conjunct1, THEN mp, OF h, THEN conjunct1, THEN mp, OF s]
  have third: "requests ?run ! (0 + 2) =
      (3 - length (fetched stalled_service ?run (0 + 2)), Some ''c'')"
    by simp
  have "length (fetched stalled_service ?run (0 + 2)) = 2"
    by (simp add: fetched_def responses_def getUserTweets_def stalled_service_def)
  with third have "[(3, None), (2, Some ''c''), (1, Some ''c'')] ! 2 = (1::nat, Some ''c'')"
    by simp
  moreover have h2: "getUserTweetsIterator stalled_service 2 = Some ?run2
      \<and> Suc 0 < length (requests ?run2)
      \<and> responses stalled_service ?run2 ! 0 = Inr ?p
      \<and> responses stalled_service ?run2 ! Suc 0 = Inr ?q
      \<and> next ?p = Some ''c'' \<and> next ?q = Some ''c'' \<and> ''c'' \<noteq> []"
    using run2 by (simp add: responses_def getUserTweets_def stalled_service_def)
  have "length (requests ?run2) = 0 + 2" by simp
  from repeated_cursor_is_requested_again
         [where api = stalled_service and cap = 2 and run = ?run2 and j = 0
            and p = ?p and q = ?q and c = "''c''",
          THEN conjunct1, THEN mp, OF h2, THEN conjunct2, THEN mp, OF this]
  have "length (yielded (the (getUserTweetsIterator stalled_service 2))) = 2"
    unfolding run2 by simp
  ultimately show ?thesis
    using t [THEN conjunct2, THEN mp, OF a] a stalled_run by simp
qed

section \<open>Media upload: theorems\<close>

lemma slice_chunk:
  "slice d (k * CHUNK_SIZE) (min (k * CHUNK_SIZE + CHUNK_SIZE) (length d)) = chunk_of d k"
  by (simp add: slice_def chunk_of_def min_def)

lemma appends_step: "i < k \<Longrightarrow>
  appends mid d i k = Sent (APPEND mid i (chunk_of d i)) # appends mid d (i + 1) k"
  by (simp add: appends_def upt_conv_Cons)

lemma appends_empty: "appends mid d i i = []"
  by (simp add: appends_def)

lemma append_loop_done:
  "\<not> i < chunks \<Longrightarrow> append_loop api d mid chunks i tr = (None, tr)"
  by (subst append_loop.simps) simp

lemma append_loop_step_ok:
  "i < chunks \<Longrightarrow> api tr (APPEND mid i (chunk_of d i)) = Inr v \<Longrightarrow>
   append_loop api d mid chunks i tr =
     append_loop api d mid chunks (i + 1) (tr @ [Sent (APPEND mid i (chunk_of d i))])"
  by (subst append_loop.simps) (simp add: slice_chunk Let_def)

lemma append_loop_step_fail:
  "i < chunks \<Longrightarrow> api tr (APPEND mid i (chunk_of d i)) = Inl e \<Longrightarrow>
   append_loop api d mid chunks i tr =
     (Some (AppendFailed (i + 1) chunks), tr @ [Sent (APPEND mid i (chunk_of d i))])"
  by (subst append_loop.simps) (simp add: slice_chunk Let_def)

lemma append_loop_ok:
  "i \<le> chunks \<Longrightarrow>
   (\<forall>k. i \<le> k \<longrightarrow> k < chunks \<longrightarrow>
      (\<exists>v. api (tr @ appends mid d i k) (APPEND mid k (chunk_of d k)) = Inr v)) \<Longrightarrow>
   append_loop api d mid chunks i tr = (None, tr @ appends mid d i chunks)"
proof (induction "chunks - i" arbitrary: i tr)
  case 0
  then have "i = chunks" by simp
  then show ?case by (simp add: append_loop_done appends_empty)
next
  case (Suc n)
  then have lt: "i < chunks" by simp
  with Suc.prems(2) obtain v where v: "api tr (APPEND mid i (chunk_of d i)) = Inr v"
    by (auto simp: appends_empty dest!: spec [of _ i])
  let ?tr = "tr @ [Sent (APPEND mid i (chunk_of d i))]"
  have h: "\<forall>k. i + 1 \<le> k \<longrightarrow> k < chunks \<longrightarrow>
    (\<exists>v. api (?tr @ appends mid d (i + 1) k) (APPEND mid k (chunk_of d k)) = Inr v)"
  proof (intro allI impI)
    fix k assume "i + 1 \<le> k" "k < chunks"
    then have "i \<le> k" "i < k" by simp_all
    from Suc.prems(2) \<open>i \<le> k\<close> \<open>k < chunks\<close>
    obtain v where "api (tr @ appends mid d i k) (APPEND mid k (chunk_of d k)) = Inr v"
      by blast
    moreover have "tr @ appends mid d i k = ?tr @ appends mid d (i + 1) k"
      using \<open>i < k\<close> by (simp add: appends_step)
    ultimately show "\<exists>v. api (?tr @ appends mid d (i + 1) k) (APPEND mid k (chunk_of d k)) = Inr v"
      by simp
  qed
  have n: "n = chunks - (i + 1)" using Suc(2) by simp
  have le: "i + 1 \<le> chunks" using lt by simp
  have "append_loop api d mid chunks (i + 1) ?tr = (None, ?tr @ appends mid d (i + 1) chunks)"
    by (rule Suc(1) [OF n le h])
  with lt v show ?case
    by (simp add: append_loop_step_ok [where api = api and tr = tr, OF lt v] appends_step [OF lt])
qed

lemma append_loop_fail:
  "i \<le> j \<Longrightarrow> j < chunks \<Longrightarrow>
   (\<forall>k. i \<le> k \<longrightarrow> k < j \<longrightarrow>
      (\<exists>v. api (tr @ appends mid d i k) (APPEND mid k (chunk_of d k)) = Inr v)) \<Longrightarrow>
   api (tr @ appends mid d i j) (APPEND mid j (chunk_of d j)) = Inl e \<Longrightarrow>
   append_loop api d mid chunks i tr =
     (Some (AppendFailed (j + 1) chunks), tr @ appends mid d i (j + 1))"
proof (induction "j - i" arbitrary: i tr)
  case 0
  then have ij: "i = j" by simp
  from 0 have "api tr (APPEND mid i (chunk_of d i)) = Inl e" "i < chunks"
    by (simp_all add: ij appends_empty)
  from append_loop_step_fail [where api = api and tr = tr, OF this(2) this(1)]
  show ?case by (simp add: ij appends_def)
next
  case (Suc n)
  then have lt: "i < j" by simp
  then have ltc: "i < chunks" using Suc.prems(2) by simp
  from Suc.prems(3) lt obtain v where v: "api tr (APPEND mid i (chunk_of d i)) = Inr v"
    by (auto simp: appends_empty dest!: spec [of _ i])
  let ?tr = "tr @ [Sent (APPEND mid i (chunk_of d i))]"
  have eq: "\<And>k. i < k \<Longrightarrow> tr @ appends mid d i k = ?tr @ appends mid d (i + 1) k"
    by (simp add: appends_step)
  have h: "\<forall>k. i + 1 \<le> k \<longrightarrow> k < j \<longrightarrow>
    (\<exists>v. api (?tr @ appends mid d (i + 1) k) (APPEND mid k (chunk_of d k)) = Inr v)"
  proof (intro allI impI)
    fix k assume "i + 1 \<le> k" "k < j"
    then have "i \<le> k" "i < k" by simp_all
    from Suc.prems(3) \<open>i \<le> k\<close> \<open>k < j\<close>
    obtain v where "api (tr @ appends mid d i k) (APPEND mid k (chunk_of d k)) = Inr v"
      by blast
    then show "\<exists>v. api (?tr @ appends mid d (i + 1) k) (APPEND mid k (chunk_of d k)) = Inr v"
      unfolding eq [OF \<open>i < k\<close>] by simp
  qed
  have f: "api (?tr @ appends mid d (i + 1) j) (APPEND mid j (chunk_of d j)) = Inl e"
    using Suc.prems(4) unfolding eq [OF lt] .
  have n: "n = j - (i + 1)" using Suc(2) by simp
  have le: "i + 1 \<le> j" using lt by simp
  have "append_loop api d mid chunks (i + 1) ?tr =
          (Some (AppendFailed (j + 1) chunks), ?tr @ appends mid d (i + 1) (j + 1))"
    by (rule Suc(1) [OF n le Suc.prems(2) h f])
  moreover have "i < j + 1" using lt by simp
  ultimately show ?case
    by (simp add: append_loop_step_ok [where api = api and tr = tr, OF ltc v] eq)
qed

lemma poll_done:
  "\<not> a < maxAttempts \<Longrightarrow> poll_loop api mid a tr = (Inl ProcessingTimedOut, tr)"
  by (subst poll_loop.simps) simp

lemma poll_unreachable:
  "a < maxAttempts \<Longrightarrow> api tr (STATUS mid) = Inl e \<Longrightarrow>
   poll_loop api mid a tr = (Inl StatusCheckFailed, tr @ [Sent (STATUS mid)])"
  by (subst poll_loop.simps) (simp add: Let_def)

lemma poll_no_info:
  "a < maxAttempts \<Longrightarrow> api tr (STATUS mid) = Inr v \<Longrightarrow> processing_info v = None \<Longrightarrow>
   poll_loop api mid a tr = (Inr v, tr @ [Sent (STATUS mid)])"
  by (subst poll_loop.simps) (simp add: Let_def)

lemma poll_succeeded:
  "a < maxAttempts \<Longrightarrow> api tr (STATUS mid) = Inr v \<Longrightarrow> processing_info v = Some info \<Longrightarrow>
   state info = ''succeeded'' \<Longrightarrow>
   poll_loop api mid a tr = (Inr v, tr @ [Sent (STATUS mid)])"
  by (subst poll_loop.simps) (simp add: Let_def)

lemma poll_failed:
  "a < maxAttempts \<Longrightarrow> api tr (STATUS mid) = Inr v \<Longrightarrow> processing_info v = Some info \<Longrightarrow>
   state info = ''failed'' \<Longrightarrow>
   poll_loop api mid a tr = (Inl ProcessingFailed, tr @ [Sent (STATUS mid)])"
  by (subst poll_loop.simps) (simp add: Let_def)

lemma poll_pending:
  "a < maxAttempts \<Longrightarrow> api tr (STATUS mid) = Inr v \<Longrightarrow> processing_info v = Some info \<Longrightarrow>
   state info \<noteq> ''succeeded'' \<Longrightarrow> state info \<noteq> ''failed'' \<Longrightarrow>
   poll_loop api mid a tr =
     poll_loop api mid (a + 1)
       (tr @ [Sent (STATUS mid), Wait (or_default (check_after_secs info) 5 * 1000)])"
  by (subst poll_loop.simps) (simp add: Let_def)

lemma poll_loop_bounded:
  "a \<le> maxAttempts \<Longrightarrow>
   \<exists>rest. snd (poll_loop api mid a tr) = tr @ rest
        \<and> (\<forall>e \<in> set rest. is_poll mid e)
        \<and> a + length (filter is_status rest) \<le> maxAttempts
        \<and> poll_outcome (fst (poll_loop api mid a tr)) (a + length (filter is_status rest))"
proof (induction "maxAttempts - a" arbitrary: a tr)
  case 0
  then have "\<not> a < maxAttempts" "a = maxAttempts" by simp_all
  then show ?case by (simp add: poll_done poll_outcome_def)
next
  case (Suc n)
  then have lt: "a < maxAttempts" by simp
  show ?case
  proof (cases "api tr (STATUS mid)")
    case (Inl e)
    from poll_unreachable [where api = api and tr = tr, OF lt Inl] lt
    show ?thesis by (simp add: poll_outcome_def)
  next
    case (Inr v)
    show ?thesis
    proof (cases "processing_info v")
      case None
      from poll_no_info [where api = api and tr = tr, OF lt Inr None] lt None
      show ?thesis by (simp add: poll_outcome_def)
    next
      case (Some info)
      consider (s) "state info = ''succeeded''" | (f) "state info = ''failed''"
        | (p) "state info \<noteq> ''succeeded''" "state info \<noteq> ''failed''" by blast
      then show ?thesis
      proof cases
        case s
        from poll_succeeded [where api = api and tr = tr, OF lt Inr Some s] lt Some s
        show ?thesis by (simp add: poll_outcome_def)
      next
        case f
        from poll_failed [where api = api and tr = tr, OF lt Inr Some f] lt
        show ?thesis by (simp add: poll_outcome_def)
      next
        case p
        let ?tr = "tr @ [Sent (STATUS mid), Wait (or_default (check_after_secs info) 5 * 1000)]"
        have n: "n = maxAttempts - (a + 1)" using Suc(2) by simp
        have le: "a + 1 \<le> maxAttempts" using lt by simp
        from Suc(1) [OF n le, of ?tr]
        obtain rest where r: "snd (poll_loop api mid (a + 1) ?tr) = ?tr @ rest"
          "\<forall>e \<in> set rest. is_poll mid e"
          "a + 1 + length (filter is_status rest) \<le> maxAttempts"
          "poll_outcome (fst (poll_loop api mid (a + 1) ?tr)) (a + 1 + length (filter is_status rest))"
          by blast
        let ?rest = "[Sent (STATUS mid), Wait (or_default (check_after_secs info) 5 * 1000)] @ rest"
        have e: "poll_loop api mid a tr = poll_loop api mid (a + 1) ?tr"
          by (rule poll_pending [where api = api and tr = tr, OF lt Inr Some p])
        have "snd (poll_loop api mid a tr) = tr @ ?rest" using r(1) e by simp
        moreover have "\<forall>e \<in> set ?rest. is_poll mid e" using r(2) by simp
        moreover have "a + length (filter is_status ?rest) = a + 1 + length (filter is_status rest)"
          by simp
        ultimately show ?thesis using r(3,4) e by (intro exI [of _ ?rest]) (simp only: simp_thms)
      qed
    qed
  qed
qed

lemma filter_append_polls:
  "\<forall>e \<in> set rest. is_poll mid e \<Longrightarrow> filter is_append rest = []"
proof (induction rest)
  case Nil
  then show ?case by simp
next
  case (Cons e rest)
  then have "is_poll mid e" by simp
  then have "\<not> is_append e" by (cases e) auto
  with Cons show ?case by simp
qed

lemma filter_append_appends: "filter is_append (appends mid d i k) = appends mid d i k"
  by (simp add: appends_def filter_map o_def)

lemma length_appends: "length (appends mid d i k) = k - i"
  by (simp add: appends_def)

text \<open>
  C6. For a video of \<open>n\<close> bytes whose INIT request succeeds with a media id, the number
  of chunks is the ceiling of \<open>n\<close> divided by 5 MiB. When every APPEND succeeds, the
  trace is INIT, then the APPEND requests with segment indices 0, 1, 2, \<dots> in
  increasing order, one per chunk, each sent after the response to the one before,
  then one FINALIZE, and after it only STATUS requests and pauses. When the APPEND of
  segment \<open>j\<close> is the first to fail, the call throws the error that names chunk
  \<open>j + 1\<close> of the total, and the trace ends with that one APPEND of segment \<open>j\<close>:
  it is not sent again, and nothing follows it.
\<close>

theorem video_upload_request_order:
  assumes init: "api [] (INIT (length d) VideoMp4 ''tweet_video'') = Inr v0"
      and mid: "media_id_string v0 = Some mid" "mid \<noteq> []"
  shows "chunk_count (length d) = nat \<lceil>real (length d) / (5 * 1024 * 1024)\<rceil>
    \<and> ((\<forall>k < chunk_count (length d).
           \<exists>v. api (Sent (INIT (length d) VideoMp4 ''tweet_video'') # appends mid d 0 k)
                 (APPEND mid k (chunk_of d k)) = Inr v) \<longrightarrow>
         (\<exists>rest. snd (uploadMedia api d VideoMp4) =
                   Sent (INIT (length d) VideoMp4 ''tweet_video'')
                     # appends mid d 0 (chunk_count (length d)) @ Sent (FINALIZE mid) # rest
               \<and> (\<forall>e \<in> set rest. is_poll mid e)
               \<and> length (filter is_append (snd (uploadMedia api d VideoMp4))) =
                   chunk_count (length d)))
    \<and> (j < chunk_count (length d)
         \<and> (\<forall>k < j. \<exists>v. api (Sent (INIT (length d) VideoMp4 ''tweet_video'') # appends mid d 0 k)
                          (APPEND mid k (chunk_of d k)) = Inr v)
         \<and> api (Sent (INIT (length d) VideoMp4 ''tweet_video'') # appends mid d 0 j)
               (APPEND mid j (chunk_of d j)) = Inl e \<longrightarrow>
         uploadMedia api d VideoMp4 =
           (Inl (AppendFailed (j + 1) (chunk_count (length d))),
            Sent (INIT (length d) VideoMp4 ''tweet_video'') # appends mid d 0 (j + 1)))"
proof (intro conjI impI)
  show "chunk_count (length d) = nat \<lceil>real (length d) / (5 * 1024 * 1024)\<rceil>"
    by (simp add: chunk_count_def CHUNK_SIZE_def)
next
  let ?init = "Sent (INIT (length d) VideoMp4 ''tweet_video'')"
  let ?n = "chunk_count (length d)"
  assume ok: "\<forall>k < ?n. \<exists>v. api (?init # appends mid d 0 k) (APPEND mid k (chunk_of d k)) = Inr v"
  then have "\<forall>k. 0 \<le> k \<longrightarrow> k < ?n \<longrightarrow>
      (\<exists>v. api ([?init] @ appends mid d 0 k) (APPEND mid k (chunk_of d k)) = Inr v)" by simp
  then have a: "append_loop api d mid ?n 0 [?init] = (None, [?init] @ appends mid d 0 ?n)"
    by (intro append_loop_ok) simp_all
  let ?tr1 = "?init # appends mid d 0 ?n"
  show "\<exists>rest. snd (uploadMedia api d VideoMp4) = ?init # appends mid d 0 ?n @ Sent (FINALIZE mid) # rest
               \<and> (\<forall>e \<in> set rest. is_poll mid e)
               \<and> length (filter is_append (snd (uploadMedia api d VideoMp4))) = ?n"
  proof (cases "api ?tr1 (FINALIZE mid)")
    case (Inl err)
    with init mid a have "snd (uploadMedia api d VideoMp4) = ?tr1 @ [Sent (FINALIZE mid)]"
      by (simp add: uploadMedia_def Let_def)
    then show ?thesis
      by (intro exI [of _ "[]"]) (simp add: filter_append_appends length_appends)
  next
    case (Inr fin)
    show ?thesis
    proof (cases "processing_info fin")
      case None
      with Inr init mid a have "snd (uploadMedia api d VideoMp4) = ?tr1 @ [Sent (FINALIZE mid)]"
        by (simp add: uploadMedia_def Let_def)
      then show ?thesis
        by (intro exI [of _ "[]"]) (simp add: filter_append_appends length_appends)
    next
      case (Some info)
      let ?tr2 = "?tr1 @ [Sent (FINALIZE mid)]"
      from Some Inr init mid a have u: "uploadMedia api d VideoMp4 = poll_loop api mid 0 ?tr2"
        by (simp add: uploadMedia_def Let_def checkMediaProcessingStatus_def)
      from poll_loop_bounded [of 0 api mid ?tr2]
      obtain rest where r: "snd (poll_loop api mid 0 ?tr2) = ?tr2 @ rest"
        "\<forall>e \<in> set rest. is_poll mid e" by auto
      from r show ?thesis unfolding u
        by (intro exI [of _ rest])
           (simp add: filter_append_appends length_appends filter_append_polls [of rest mid])
    qed
  qed
next
  let ?init = "Sent (INIT (length d) VideoMp4 ''tweet_video'')"
  let ?n = "chunk_count (length d)"
  assume h: "j < ?n
         \<and> (\<forall>k < j. \<exists>v. api (?init # appends mid d 0 k) (APPEND mid k (chunk_of d k)) = Inr v)
         \<and> api (?init # appends mid d 0 j) (APPEND mid j (chunk_of d j)) = Inl e"
  then have "\<forall>k. 0 \<le> k \<longrightarrow> k < j \<longrightarrow>
      (\<exists>v. api ([?init] @ appends mid d 0 k) (APPEND mid k (chunk_of d k)) = Inr v)"
    and "api ([?init] @ appends mid d 0 j) (APPEND mid j (chunk_of d j)) = Inl e"
    and "j < ?n" by simp_all
  then have "append_loop api d mid ?n 0 [?init] =
      (Some (AppendFailed (j + 1) ?n), [?init] @ appends mid d 0 (j + 1))"
    by (intro append_loop_fail) simp_all
  with init mid show "uploadMedia api d VideoMp4 =
           (Inl (AppendFailed (j + 1) ?n), ?init # appends mid d 0 (j + 1))"
    by (simp add: uploadMedia_def Let_def)
qed

text \<open>
  A video of 12 MiB: three APPEND requests, segments 0, 1, 2, then FINALIZE; and with
  a service that fails segment 1, the error for chunk 2 of 3 after two APPEND requests.
\<close>

theorem video_upload_request_order_witness:
  "(\<exists>rest. snd (uploadMedia video_service (replicate 12582912 0) VideoMp4) =
            [Sent (INIT 12582912 VideoMp4 ''tweet_video''),
             Sent (APPEND ''710'' 0 (replicate 5242880 0)),
             Sent (APPEND ''710'' 1 (replicate 5242880 0)),
             Sent (APPEND ''710'' 2 (replicate 2097152 0)),
             Sent (FINALIZE ''710'')] @ rest
        \<and> (\<forall>e \<in> set rest. is_poll ''710'' e)
        \<and> length (filter is_append (snd (uploadMedia video_service (replicate 12582912 0) VideoMp4))) = 3)
   \<and> uploadMedia flaky_service (replicate 12582912 0) VideoMp4 =
       (Inl (AppendFailed 2 3),
        [Sent (INIT 12582912 VideoMp4 ''tweet_video''),
         Sent (APPEND ''710'' 0 (replicate 5242880 0)),
         Sent (APPEND ''710'' 1 (replicate 5242880 0))])"
proof -
  let ?d = "replicate 12582912 (0::byte)"
  have n: "chunk_count (length ?d) = 3" by (simp add: chunk_count_def CHUNK_SIZE_def)
  have c: "chunk_of ?d 0 = replicate 5242880 0" "chunk_of ?d 1 = replicate 5242880 0"
    "chunk_of ?d 2 = replicate 2097152 0"
    by (simp_all add: chunk_of_def CHUNK_SIZE_def)
  have u: "[0..<3] = [0, 1, 2::nat]" "[0..<2] = [0, 1::nat]" by (simp_all add: upt_rec)
  have a: "appends ''710'' ?d 0 3 =
      [Sent (APPEND ''710'' 0 (replicate 5242880 0)), Sent (APPEND ''710'' 1 (replicate 5242880 0)),
       Sent (APPEND ''710'' 2 (replicate 2097152 0))]"
    "appends ''710'' ?d 0 (1 + 1) =
      [Sent (APPEND ''710'' 0 (replicate 5242880 0)), Sent (APPEND ''710'' 1 (replicate 5242880 0))]"
    using c by (simp_all add: appends_def u)
  have i1: "video_service [] (INIT (length ?d) VideoMp4 ''tweet_video'') = Inr ok_id"
    by (simp add: video_service_def)
  have i2: "flaky_service [] (INIT (length ?d) VideoMp4 ''tweet_video'') = Inr ok_id"
    by (simp add: flaky_service_def video_service_def)
  have m: "media_id_string ok_id = Some ''710''" "''710'' \<noteq> []" by (simp_all add: ok_id_def)
  note v = video_upload_request_order [where api = video_service and d = ?d, OF i1 m,
             THEN conjunct2, THEN conjunct1, unfolded n a]
  note f = video_upload_request_order [where api = flaky_service and d = ?d and j = 1
               and e = "ApiError ''503''", OF i2 m, THEN conjunct2, THEN conjunct2,
             unfolded n a]
  have "\<forall>k<3. \<exists>v. video_service
          (Sent (INIT (length ?d) VideoMp4 ''tweet_video'') # appends ''710'' ?d 0 k)
          (APPEND ''710'' k (chunk_of ?d k)) = Inr v"
    by (simp add: video_service_def)
  from v [THEN mp, OF this] have first: "\<exists>rest. snd (uploadMedia video_service ?d VideoMp4) =
            [Sent (INIT 12582912 VideoMp4 ''tweet_video''),
             Sent (APPEND ''710'' 0 (replicate 5242880 0)),
             Sent (APPEND ''710'' 1 (replicate 5242880 0)),
             Sent (APPEND ''710'' 2 (replicate 2097152 0)),
             Sent (FINALIZE ''710'')] @ rest
        \<and> (\<forall>e \<in> set rest. is_poll ''710'' e)
        \<and> length (filter is_append (snd (uploadMedia video_service ?d VideoMp4))) = 3"
    by simp
  have "(1::nat) < 3
      \<and> (\<forall>k<1. \<exists>v. flaky_service
          (Sent (INIT (length ?d) VideoMp4 ''tweet_video'') # appends ''710'' ?d 0 k)
          (APPEND ''710'' k (chunk_of ?d k)) = Inr v)
      \<and> flaky_service (Sent (INIT (length ?d) VideoMp4 ''tweet_video'') # appends ''710'' ?d 0 1)
          (APPEND ''710'' 1 (chunk_of ?d 1)) = Inl (ApiError ''503'')"
    by (simp add: flaky_service_def video_service_def)
  from f [THEN mp, OF this] have second: "uploadMedia flaky_service ?d VideoMp4 =
       (Inl (AppendFailed 2 3),
        [Sent (INIT 12582912 VideoMp4 ''tweet_video''),
         Sent (APPEND ''710'' 0 (replicate 5242880 0)),
         Sent (APPEND ''710'' 1 (replicate 5242880 0))])"
    by simp
  from first second show ?thesis by (rule conjI)
qed

text \<open>
  C7 as stated fails: a video whose FINALIZE response carries a processing descriptor,
  against a service whose STATUS request fails. The call ends after one STATUS request
  with the error of a failed status check, which is none of the three outcomes of the
  claim.
\<close>

theorem failed_status_request_is_a_fourth_outcome:
  "uploadMedia unreachable_status_service [1, 2, 3] VideoMp4 =
     (Inl StatusCheckFailed,
      [Sent (INIT 3 VideoMp4 ''tweet_video''), Sent (APPEND ''710'' 0 [1, 2, 3]),
       Sent (FINALIZE ''710''), Sent (STATUS ''710'')])
   \<and> StatusCheckFailed \<noteq> ProcessingFailed \<and> StatusCheckFailed \<noteq> ProcessingTimedOut"
  by (simp add: uploadMedia_def checkMediaProcessingStatus_def poll_loop.simps append_loop.simps
        maxAttempts_def unreachable_status_service_def video_service_def ok_id_def pending_def
        chunk_count_def CHUNK_SIZE_def slice_def Let_def)

lemma poll_skip:
  "a + k \<le> maxAttempts \<Longrightarrow>
   (\<forall>i<k. in_progress (api (pending_polls api mid tr i) (STATUS mid))) \<Longrightarrow>
   poll_loop api mid a tr = poll_loop api mid (a + k) (pending_polls api mid tr k)"
proof (induction k)
  case 0
  then show ?case by simp
next
  case (Suc k)
  let ?t = "pending_polls api mid tr k"
  from Suc.prems have le: "a + k \<le> maxAttempts" and lt: "a + k < maxAttempts"
    and all: "\<forall>i<k. in_progress (api (pending_polls api mid tr i) (STATUS mid))"
    and now: "in_progress (api ?t (STATUS mid))" by simp_all
  from now obtain v info where v: "api ?t (STATUS mid) = Inr v"
    and info: "processing_info v = Some info"
    and s: "state info \<noteq> ''succeeded''" "state info \<noteq> ''failed''"
    by (auto simp: in_progress_def split: sum.splits option.splits)
  have w: "or_default (check_after_secs info) 5 * 1000 = pause_after (api ?t (STATUS mid))"
    by (cases "check_after_secs info") (simp_all add: pause_after_def v info)
  have "poll_loop api mid (a + k) ?t = poll_loop api mid (a + k + 1)
      (?t @ [Sent (STATUS mid), Wait (or_default (check_after_secs info) 5 * 1000)])"
    by (rule poll_pending [where api = api and tr = ?t, OF lt v info s])
  with Suc.IH [OF le all] show ?case unfolding w by simp
qed

text \<open>
  C7, as amended. The polling sends at most 10 STATUS requests and nothing but STATUS
  requests and pauses, and its result is fixed by the first STATUS response that does
  not leave the processing pending. After \<open>k < 10\<close> polls that found it pending, each
  followed by its pause (\<^verbatim>\<open>check_after_secs\<close> seconds, or 5 when that number is absent
  or zero), the next STATUS request ends the call: if the request itself fails, with
  the error of a failed status check, at once and without another attempt; if the
  response has no processing descriptor or the state \<^verbatim>\<open>succeeded\<close>, by returning that
  response; if it has the state \<^verbatim>\<open>failed\<close>, with the error of a failed processing.
  When all 10 polls find the processing pending, the call ends with the time-out
  error after the tenth pause. These four outcomes are all there are.
\<close>

theorem status_polling_bounded_outcomes:
  "(\<exists>rest. snd (checkMediaProcessingStatus api mid tr) = tr @ rest
        \<and> (\<forall>e \<in> set rest. is_poll mid e)
        \<and> length (filter is_status rest) \<le> 10
        \<and> poll_outcome (fst (checkMediaProcessingStatus api mid tr)) (length (filter is_status rest)))
   \<and> (k < 10 \<and> (\<forall>i<k. in_progress (api (pending_polls api mid tr i) (STATUS mid))) \<longrightarrow>
        (api (pending_polls api mid tr k) (STATUS mid) = Inl e \<longrightarrow>
           checkMediaProcessingStatus api mid tr =
             (Inl StatusCheckFailed, pending_polls api mid tr k @ [Sent (STATUS mid)]))
      \<and> (api (pending_polls api mid tr k) (STATUS mid) = Inr v \<and> processing_info v = None \<longrightarrow>
           checkMediaProcessingStatus api mid tr =
             (Inr v, pending_polls api mid tr k @ [Sent (STATUS mid)]))
      \<and> (api (pending_polls api mid tr k) (STATUS mid) = Inr v \<and> processing_info v = Some info
            \<and> state info = ''succeeded'' \<longrightarrow>
           checkMediaProcessingStatus api mid tr =
             (Inr v, pending_polls api mid tr k @ [Sent (STATUS mid)]))
      \<and> (api (pending_polls api mid tr k) (STATUS mid) = Inr v \<and> processing_info v = Some info
            \<and> state info = ''failed'' \<longrightarrow>
           checkMediaProcessingStatus api mid tr =
             (Inl ProcessingFailed, pending_polls api mid tr k @ [Sent (STATUS mid)])))
   \<and> ((\<forall>i<10. in_progress (api (pending_polls api mid tr i) (STATUS mid))) \<longrightarrow>
        checkMediaProcessingStatus api mid tr =
          (Inl ProcessingTimedOut, pending_polls api mid tr 10))"
proof -
  have bounded: "\<exists>rest. snd (checkMediaProcessingStatus api mid tr) = tr @ rest
        \<and> (\<forall>e \<in> set rest. is_poll mid e)
        \<and> length (filter is_status rest) \<le> 10
        \<and> poll_outcome (fst (checkMediaProcessingStatus api mid tr)) (length (filter is_status rest))"
    using poll_loop_bounded [of 0 api mid tr]
    by (simp add: checkMediaProcessingStatus_def maxAttempts_def)
  let ?t = "pending_polls api mid tr k"
  have decided: "(api ?t (STATUS mid) = Inl e \<longrightarrow>
           checkMediaProcessingStatus api mid tr = (Inl StatusCheckFailed, ?t @ [Sent (STATUS mid)]))
      \<and> (api ?t (STATUS mid) = Inr v \<and> processing_info v = None \<longrightarrow>
           checkMediaProcessingStatus api mid tr = (Inr v, ?t @ [Sent (STATUS mid)]))
      \<and> (api ?t (STATUS mid) = Inr v \<and> processing_info v = Some info \<and> state info = ''succeeded'' \<longrightarrow>
           checkMediaProcessingStatus api mid tr = (Inr v, ?t @ [Sent (STATUS mid)]))
      \<and> (api ?t (STATUS mid) = Inr v \<and> processing_info v = Some info \<and> state info = ''failed'' \<longrightarrow>
           checkMediaProcessingStatus api mid tr = (Inl ProcessingFailed, ?t @ [Sent (STATUS mid)]))"
    if h: "k < 10 \<and> (\<forall>i<k. in_progress (api (pending_polls api mid tr i) (STATUS mid)))"
  proof -
    from h have lt: "0 + k < maxAttempts" and le: "0 + k \<le> maxAttempts"
      by (simp_all add: maxAttempts_def)
    from h have "poll_loop api mid 0 tr = poll_loop api mid (0 + k) ?t"
      by (intro poll_skip [OF le]) simp
    then have c: "checkMediaProcessingStatus api mid tr = poll_loop api mid (0 + k) ?t"
      by (simp add: checkMediaProcessingStatus_def)
    show ?thesis
      unfolding c
      using poll_unreachable [where api = api and tr = ?t, OF lt]
            poll_no_info [where api = api and tr = ?t, OF lt]
            poll_succeeded [where api = api and tr = ?t, OF lt]
            poll_failed [where api = api and tr = ?t, OF lt]
      by blast
  qed
  have timeout: "checkMediaProcessingStatus api mid tr =
          (Inl ProcessingTimedOut, pending_polls api mid tr 10)"
    if h: "\<forall>i<10. in_progress (api (pending_polls api mid tr i) (STATUS mid))"
  proof -
    have "poll_loop api mid 0 tr = poll_loop api mid (0 + 10) (pending_polls api mid tr 10)"
      using h by (intro poll_skip) (simp_all add: maxAttempts_def)
    then show ?thesis
      by (simp add: checkMediaProcessingStatus_def poll_done maxAttempts_def)
  qed
  from bounded decided timeout show ?thesis by blast
qed

text \<open>
  One service for each way of ending: success at the third poll after two pauses of
  5 seconds (\<^verbatim>\<open>check_after_secs\<close> is 0), a failed STATUS request, a response without
  descriptor, a reported failure, and ten pending polls.
\<close>

theorem status_polling_bounded_outcomes_witness:
  "checkMediaProcessingStatus ready_service ''710'' [] =
     (Inr succeeded, [Sent (STATUS ''710''), Wait 5000, Sent (STATUS ''710''), Wait 5000,
                      Sent (STATUS ''710'')])
   \<and> checkMediaProcessingStatus unreachable_status_service ''710'' [] =
       (Inl StatusCheckFailed, [Sent (STATUS ''710'')])
   \<and> checkMediaProcessingStatus settled_service ''710'' [] = (Inr ok_id, [Sent (STATUS ''710'')])
   \<and> checkMediaProcessingStatus failed_service ''710'' [] =
       (Inl ProcessingFailed, [Sent (STATUS ''710'')])
   \<and> fst (checkMediaProcessingStatus video_service ''710'' []) = Inl ProcessingTimedOut
   \<and> length (filter is_status (snd (checkMediaProcessingStatus video_service ''710'' []))) = 10"
proof -
  have p: "pending_polls ready_service ''710'' [] (Suc 0) = [Sent (STATUS ''710''), Wait 5000]"
    "pending_polls ready_service ''710'' [] (Suc (Suc 0)) =
       [Sent (STATUS ''710''), Wait 5000, Sent (STATUS ''710''), Wait 5000]"
    by (simp_all add: ready_service_def pause_after_def pending_def)
  have r: "Suc (Suc 0) < 10
      \<and> (\<forall>i<Suc (Suc 0). in_progress (ready_service (pending_polls ready_service ''710'' [] i)
                                      (STATUS ''710'')))"
    by (simp add: All_less_Suc p) (simp add: ready_service_def pending_def in_progress_def)
  have rs: "ready_service (pending_polls ready_service ''710'' [] (Suc (Suc 0))) (STATUS ''710'') =
      Inr succeeded \<and> processing_info succeeded =
        Some \<lparr>state = ''succeeded'', check_after_secs = None\<rparr>
      \<and> state \<lparr>state = ''succeeded'', check_after_secs = None\<rparr> = ''succeeded''"
    by (simp add: p) (simp add: ready_service_def succeeded_def)
  note ready = status_polling_bounded_outcomes [where api = ready_service and mid = "''710''" and tr = "[]"
      and k = "Suc (Suc 0)" and v = succeeded
      and info = "\<lparr>state = ''succeeded'', check_after_secs = None\<rparr>",
      THEN conjunct2, THEN conjunct1, THEN mp, OF r,
      THEN conjunct2, THEN conjunct2, THEN conjunct1, THEN mp, OF rs]
  have z: "\<And>api. (0::nat) < 10 \<and> (\<forall>i<0. in_progress (api (pending_polls api ''710'' [] i)
                                      (STATUS ''710'')))"
    by simp
  have u: "unreachable_status_service (pending_polls unreachable_status_service ''710'' [] 0)
      (STATUS ''710'') = Inl (ApiError ''timeout'')"
    by (simp add: unreachable_status_service_def)
  note unreachable = status_polling_bounded_outcomes [where api = unreachable_status_service and mid = "''710''"
      and tr = "[]" and k = 0 and e = "ApiError ''timeout''",
      THEN conjunct2, THEN conjunct1, THEN mp, OF z, THEN conjunct1, THEN mp, OF u]
  have s: "settled_service (pending_polls settled_service ''710'' [] 0) (STATUS ''710'') = Inr ok_id
      \<and> processing_info ok_id = None"
    by (simp add: settled_service_def ok_id_def)
  note settled = status_polling_bounded_outcomes [where api = settled_service and mid = "''710''"
      and tr = "[]" and k = 0 and v = ok_id,
      THEN conjunct2, THEN conjunct1, THEN mp, OF z, THEN conjunct2, THEN conjunct1, THEN mp, OF s]
  let ?f = "\<lparr>media_id_string = Some ''710'',
       processing_info = Some \<lparr>state = ''failed'', check_after_secs = None\<rparr>\<rparr>"
  have f: "failed_service (pending_polls failed_service ''710'' [] 0) (STATUS ''710'') = Inr ?f
      \<and> processing_info ?f = Some \<lparr>state = ''failed'', check_after_secs = None\<rparr>
      \<and> state \<lparr>state = ''failed'', check_after_secs = None\<rparr> = ''failed''"
    by (simp add: failed_service_def)
  note failed = status_polling_bounded_outcomes [where api = failed_service and mid = "''710''"
      and tr = "[]" and k = 0 and v = ?f
      and info = "\<lparr>state = ''failed'', check_after_secs = None\<rparr>",
      THEN conjunct2, THEN conjunct1, THEN mp, OF z,
      THEN conjunct2, THEN conjunct2, THEN conjunct2, THEN mp, OF f]
  have v: "\<forall>i<10. in_progress (video_service (pending_polls video_service ''710'' [] i)
                                      (STATUS ''710''))"
    by (simp add: video_service_def pending_def in_progress_def)
  note timed_out = status_polling_bounded_outcomes [where api = video_service and mid = "''710''" and tr = "[]",
      THEN conjunct2, THEN conjunct2, THEN mp, OF v]
  have n: "\<And>k. length (filter is_status (pending_polls video_service ''710'' [] k)) = k"
  proof -
    fix k show "length (filter is_status (pending_polls video_service ''710'' [] k)) = k"
      by (induction k) simp_all
  qed
  from ready unreachable settled failed timed_out show ?thesis
    by (simp add: n ready_service_def pause_after_def pending_def)
qed

lemma image_upload:
  assumes init: "api [] (INIT (length d) ImageJpeg ''tweet_image'') = Inr v0"
      and mid: "media_id_string v0 = Some mid" "mid \<noteq> []"
      and app: "api [Sent (INIT (length d) ImageJpeg ''tweet_image'')]
                  (APPEND mid 0 (take CHUNK_SIZE d)) = Inr v1"
      and fin: "api [Sent (INIT (length d) ImageJpeg ''tweet_image''),
                     Sent (APPEND mid 0 (take CHUNK_SIZE d))] (FINALIZE mid) = Inr v2"
  shows "uploadMedia api d ImageJpeg =
           (Inr v2, [Sent (INIT (length d) ImageJpeg ''tweet_image''),
                     Sent (APPEND mid 0 (take CHUNK_SIZE d)), Sent (FINALIZE mid)])"
proof -
  let ?init = "Sent (INIT (length d) ImageJpeg ''tweet_image'')"
  have c: "chunk_of d 0 = take CHUNK_SIZE d" by (simp add: chunk_of_def)
  from app have "\<forall>k. 0 \<le> k \<longrightarrow> k < 1 \<longrightarrow>
      (\<exists>v. api ([?init] @ appends mid d 0 k) (APPEND mid k (chunk_of d k)) = Inr v)"
    by (simp add: appends_empty c)
  then have "append_loop api d mid 1 0 [?init] = (None, [?init] @ appends mid d 0 1)"
    by (intro append_loop_ok) simp_all
  moreover have "appends mid d 0 1 = [Sent (APPEND mid 0 (take CHUNK_SIZE d))]"
    by (simp add: appends_def c)
  ultimately show ?thesis using init mid fin
    by (simp add: uploadMedia_def Let_def)
qed

text \<open>
  C8. An image of 5 MiB and one byte: INIT declares 5242881 bytes, the single APPEND
  carries the first 5242880 of them, and FINALIZE follows; the last byte is never
  sent. No STATUS request is sent, although the FINALIZE response carries a processing
  descriptor.
\<close>

theorem oversized_image_append_is_truncated:
  "uploadMedia video_service (replicate 5242881 0) ImageJpeg =
     (Inr (pending (Some 2)),
      [Sent (INIT 5242881 ImageJpeg ''tweet_image''),
       Sent (APPEND ''710'' 0 (replicate 5242880 0)),
       Sent (FINALIZE ''710'')])"
proof -
  have "take CHUNK_SIZE (replicate 5242881 (0::byte)) = replicate 5242880 0"
    by (simp add: CHUNK_SIZE_def)
  with image_upload [of video_service "replicate 5242881 0" ok_id "''710''"
         "\<lparr>media_id_string = None, processing_info = None\<rparr>" "pending (Some 2)"]
  show ?thesis by (simp add: video_service_def ok_id_def)
qed

section \<open>Tweets and queries: theorems\<close>

text \<open>
  C9. When the request for the conversation succeeds, \<open>getTweet\<close> does not throw: it
  returns the first tweet of the flattened conversation whose id is the requested one,
  and \<^verbatim>\<open>null\<close> when no flattened tweet has that id (or when the response has no value).
  A Scraper with a user auth takes this path.
\<close>

theorem getTweet_absent_focal_id_is_null:
  assumes "requestApi tid = Inr response"
  shows "getTweet parse requestApi tid =
           Inr (case response of
                  None \<Rightarrow> None
                | Some conv \<Rightarrow> find (\<lambda>t. js_get t ''id'' = JString tid) (parse conv))
       \<and> (\<forall>conv. response = Some conv \<and> (\<forall>t \<in> set (parse conv). js_get t ''id'' \<noteq> JString tid) \<longrightarrow>
             getTweet parse requestApi tid = Inr None)
       \<and> (\<forall>conv. response = Some conv \<and> (\<exists>t \<in> set (parse conv). js_get t ''id'' = JString tid) \<longrightarrow>
             (\<exists>t \<in> set (parse conv). js_get t ''id'' = JString tid
                \<and> getTweet parse requestApi tid = Inr (Some t)))
       \<and> (kind (auth s) = TwitterUserAuth \<longrightarrow>
             Scraper_getTweet parse requestApi parseRaw requestRaw s tid =
               getTweet parse requestApi tid)"
proof -
  let ?P = "\<lambda>t. js_get t ''id'' = JString tid"
  have a: "getTweet parse requestApi tid =
           Inr (case response of None \<Rightarrow> None | Some conv \<Rightarrow> find ?P (parse conv))"
    using assms by (simp add: getTweet_def split: option.splits)
  have b: "\<forall>conv. response = Some conv \<and> (\<forall>t \<in> set (parse conv). \<not> ?P t) \<longrightarrow>
             getTweet parse requestApi tid = Inr None"
    unfolding a by (auto simp: find_None_iff)
  have c: "\<forall>conv. response = Some conv \<and> (\<exists>t \<in> set (parse conv). ?P t) \<longrightarrow>
             (\<exists>t \<in> set (parse conv). ?P t \<and> getTweet parse requestApi tid = Inr (Some t))"
  proof (intro allI impI)
    fix conv assume h: "response = Some conv \<and> (\<exists>t \<in> set (parse conv). ?P t)"
    then have "find ?P (parse conv) \<noteq> None" by (auto simp: find_None_iff)
    then obtain t where t: "find ?P (parse conv) = Some t" by auto
    then have "?P t" "t \<in> set (parse conv)" by (auto simp: find_Some_iff)
    with t h show "\<exists>t \<in> set (parse conv). ?P t \<and> getTweet parse requestApi tid = Inr (Some t)"
      unfolding a by auto
  qed
  have d: "kind (auth s) = TwitterUserAuth \<longrightarrow>
             Scraper_getTweet parse requestApi parseRaw requestRaw s tid =
               getTweet parse requestApi tid"
    by (simp add: Scraper_getTweet_def)
  from a b c d show ?thesis by blast
qed

theorem getTweet_absent_focal_id_is_null_witness:
  "getTweet (\<lambda>conv. conv) conversation_service ''2'' = Inr (Some retweeted_tweet)
   \<and> getTweet (\<lambda>conv. conv) conversation_service ''9'' = Inr None"
proof -
  have r: "\<And>tid. conversation_service tid = Inr (Some [original_tweet, retweeted_tweet])"
    by (simp add: conversation_service_def)
  from getTweet_absent_focal_id_is_null [where requestApi = conversation_service and parse = "\<lambda>conv. conv"
             and tid = "''2''", OF r, THEN conjunct1]
       getTweet_absent_focal_id_is_null [where requestApi = conversation_service and parse = "\<lambda>conv. conv"
             and tid = "''9''", OF r, THEN conjunct2, THEN conjunct1]
  show ?thesis by (simp add: original_tweet_def retweeted_tweet_def js_get_def)
qed

lemma getTweetsWhere_loop_predicate:
  "getTweetsWhere_loop ts (ByPredicate f) filtered =
     filtered @ filter (\<lambda>t. js_truthy (f t)) ts"
  by (induction ts arbitrary: filtered) (simp_all add: Let_def)

lemma getTweetWhere_resolved:
  "\<forall>t \<in> set ts. f t = Promise (Inr (g t)) \<Longrightarrow>
   getTweetWhere ts (ByPredicate f) = Inr (find g ts)"
  by (induction ts) simp_all

text \<open>
  C10. For a predicate query that returns a promise for every tweet, \<open>getTweetsWhere\<close>
  returns every tweet of the input, whatever the promises resolve to, because it tests
  the promise itself. \<open>getTweetWhere\<close> awaits: when the promises resolve, it returns
  the first tweet whose promise resolves to true. So on a non-empty input whose promises
  all resolve to false the first returns \<^verbatim>\<open>null\<close> and the second returns all tweets.
\<close>

theorem getTweetsWhere_async_predicate_keeps_all:
  assumes "\<forall>t \<in> set ts. f t = Promise (p t)"
  shows "getTweetsWhere ts (ByPredicate f) = ts
       \<and> ((\<forall>t \<in> set ts. p t = Inr (g t)) \<longrightarrow>
            getTweetWhere ts (ByPredicate f) = Inr (find g ts))
       \<and> (ts \<noteq> [] \<and> (\<forall>t \<in> set ts. p t = Inr False) \<longrightarrow>
            getTweetWhere ts (ByPredicate f) = Inr None
          \<and> getTweetsWhere ts (ByPredicate f) \<noteq> [])"
proof -
  from assms have "filter (\<lambda>t. js_truthy (f t)) ts = ts"
    by (induction ts) simp_all
  then have a: "getTweetsWhere ts (ByPredicate f) = ts"
    by (simp add: getTweetsWhere_def getTweetsWhere_loop_predicate)
  have b: "(\<forall>t \<in> set ts. p t = Inr (g t)) \<longrightarrow>
            getTweetWhere ts (ByPredicate f) = Inr (find g ts)" for g
    using assms by (auto intro!: getTweetWhere_resolved)
  have c: "(\<forall>t \<in> set ts. p t = Inr False) \<longrightarrow> getTweetWhere ts (ByPredicate f) = Inr None"
    using b [of "\<lambda>t. False"] by (simp add: find_None_iff)
  from a b c show ?thesis by simp
qed

theorem getTweetsWhere_async_predicate_keeps_all_witness:
  "getTweetsWhere [original_tweet, retweeted_tweet] (ByPredicate is_retweet_async) =
     [original_tweet, retweeted_tweet]
   \<and> getTweetWhere [original_tweet, retweeted_tweet] (ByPredicate is_retweet_async) =
       Inr (Some retweeted_tweet)
   \<and> getTweetWhere [original_tweet] (ByPredicate is_retweet_async) = Inr None
   \<and> getTweetsWhere [original_tweet] (ByPredicate is_retweet_async) = [original_tweet]"
proof -
  let ?g = "\<lambda>t. js_get t ''isRetweet'' = JBool True"
  let ?p = "\<lambda>t. Inr (?g t) :: error + bool"
  have h2: "\<forall>t \<in> set [original_tweet, retweeted_tweet]. is_retweet_async t = Promise (?p t)"
    by (simp add: is_retweet_async_def)
  have h1: "\<forall>t \<in> set [original_tweet]. is_retweet_async t = Promise (?p t)"
    by (simp add: is_retweet_async_def)
  have g: "\<not> ?g original_tweet" "?g retweeted_tweet"
    by (simp_all add: original_tweet_def retweeted_tweet_def js_get_def)
  from getTweetsWhere_async_predicate_keeps_all [OF h2, of ?g]
       getTweetsWhere_async_predicate_keeps_all [OF h1, of ?g] g
  show ?thesis by simp
qed

end
